theory Spec2Isabelle
  imports Complex_Main
begin

section \<open>Core types (types.ts)\<close>

text \<open>
  JavaScript numbers are IEEE doubles. Numbers that index tiles (map width and
  height, tile coordinates) are integers. Pixel coordinates, sizes, velocities and
  times are reals, which stand for the finite doubles; every concrete input used
  below is exactly representable. The collision code and the win, lose and restart
  tests are modelled with exact arithmetic. The frame callback and the Euler step
  are not: the quotient \<open>1000 / 60\<close> is rounded, and the number of steps that a frame
  runs depends on the rounding. Their four operations on doubles are a parameter of
  the model, a record of functions about which the theorems assume nothing.
\<close>

record Arith =
  fadd :: "real \<Rightarrow> real \<Rightarrow> real"
  fsub :: "real \<Rightarrow> real \<Rightarrow> real"
  fmul :: "real \<Rightarrow> real \<Rightarrow> real"
  fdiv :: "real \<Rightarrow> real \<Rightarrow> real"

text \<open>
  The operations of the engine are those of IEEE 754 binary64 with rounding to
  nearest, ties to even: the exact result rounded to 53 significant bits, and to a
  multiple of \<open>2\<^sup>-\<^sup>1\<^sup>0\<^sup>7\<^sup>4\<close> below the normal range. \<open>binade x\<close> is the exponent of the power
  of two at or below \<open>\<bar>x\<bar>\<close>. Infinities and NaN (a result beyond the largest double, a
  division by zero) are outside this instance.
\<close>

fun bitLength :: "nat \<Rightarrow> nat" where
  "bitLength n = (if n = 0 then 0 else Suc (bitLength (n div 2)))"

declare bitLength.simps [simp del]

definition binade :: "real \<Rightarrow> int" where
  "binade x =
     (if 1 \<le> \<bar>x\<bar> then int (bitLength (nat \<lfloor>\<bar>x\<bar>\<rfloor>)) - 1
      else - int (bitLength (nat (\<lceil>1 / \<bar>x\<bar>\<rceil> - 1))))"

definition pow2 :: "int \<Rightarrow> real" where
  "pow2 e = (if 0 \<le> e then 2 ^ nat e else 1 / 2 ^ nat (- e))"

definition roundEven :: "real \<Rightarrow> int" where
  "roundEven x =
     (let f = \<lfloor>x\<rfloor>; r = x - of_int f
      in if r < 1 / 2 then f else if 1 / 2 < r then f + 1 else if even f then f else f + 1)"

definition toDouble :: "real \<Rightarrow> real" where
  "toDouble x =
     (if x = 0 then 0
      else (let q = pow2 (max (binade x - 52) (- 1074))
            in of_int (roundEven (x / q)) * q))"

definition ieee :: Arith where
  "ieee = \<lparr>fadd = (\<lambda>a b. toDouble (a + b)), fsub = (\<lambda>a b. toDouble (a - b)),
           fmul = (\<lambda>a b. toDouble (a * b)), fdiv = (\<lambda>a b. toDouble (a / b))\<rparr>"

datatype Direction = UP | RIGHT | DOWN | LEFT | NONE

datatype TileType = EMPTY | WALL | START | END | PATH

record GameState =
  gs_running :: bool
  gs_paused :: bool
  gs_score :: int
  gs_level :: int
  gameOver :: bool
  won :: bool

text \<open>Run-time errors of the JavaScript engine that the modelled code can raise.\<close>

datatype error = RangeError | TypeError

section \<open>TileMap (TileMap.ts)\<close>

text \<open>
  The \<open>properties\<close> bag of a tile is always the empty object and is never read; it is
  left out of the record.
\<close>

record Tile =
  tile_id :: int
  tile_type :: TileType
  tile_solid :: bool
  tile_spriteId :: "string option"

record TileLayer =
  layer_id :: string
  tiles :: "Tile list list"
  visible :: bool

record TileMap =
  tm_width :: int
  tm_height :: int
  tileSize :: real
  layers :: "TileLayer list"

text \<open>
  The constructor stores its three arguments and an empty layer list. It has no
  validation and no \<open>throw\<close>: the only branch is the successful one.
\<close>

definition TileMap_new :: "int \<Rightarrow> int \<Rightarrow> real \<Rightarrow> error + TileMap" where
  "TileMap_new w h ts = Inr \<lparr>tm_width = w, tm_height = h, tileSize = ts, layers = []\<rparr>"

definition emptyTile :: Tile where
  "emptyTile = \<lparr>tile_id = 0, tile_type = EMPTY, tile_solid = False, tile_spriteId = None\<rparr>"

text \<open>
  \<open>createLayer\<close>: the two counting loops build \<open>height\<close> rows of \<open>width\<close> empty tiles
  (no row when the bound is not positive); the layer is pushed at the end of
  \<open>layers\<close> and returned. There is no look-up of the id among the existing layers.
\<close>

definition createLayer :: "TileMap \<Rightarrow> string \<Rightarrow> error + (TileMap \<times> TileLayer)" where
  "createLayer m lid =
     (let ts = map (\<lambda>y. map (\<lambda>x. emptyTile) [0..<nat (tm_width m)]) [0..<nat (tm_height m)];
          layer = \<lparr>layer_id = lid, tiles = ts, visible = True\<rparr>
      in Inr (m\<lparr>layers := layers m @ [layer]\<rparr>, layer))"

text \<open>\<open>getLayer\<close>: \<open>Array.prototype.find\<close>, the first layer with the id.\<close>

definition getLayer :: "TileMap \<Rightarrow> string \<Rightarrow> TileLayer option" where
  "getLayer m lid = List.find (\<lambda>l. layer_id l = lid) (layers m)"

text \<open>
  \<open>getTile\<close> returns \<open>null\<close> (here \<open>None\<close>) outside the layer range or the
  \<open>width \<times> height\<close> rectangle. Inside, it reads \<open>tiles[y][x]\<close>; every layer is built by
  \<open>createLayer\<close> with exactly \<open>height\<close> rows of \<open>width\<close> tiles, so the read is in range.
\<close>

definition getTile :: "TileMap \<Rightarrow> int \<Rightarrow> int \<Rightarrow> int \<Rightarrow> Tile option" where
  "getTile m layerIndex x y =
     (if layerIndex < 0 \<or> layerIndex \<ge> int (length (layers m)) \<or>
         x < 0 \<or> x \<ge> tm_width m \<or> y < 0 \<or> y \<ge> tm_height m
      then None
      else Some (tiles (layers m ! nat layerIndex) ! nat y ! nat x))"

definition setTile :: "TileMap \<Rightarrow> int \<Rightarrow> int \<Rightarrow> int \<Rightarrow> Tile \<Rightarrow> TileMap" where
  "setTile m layerIndex x y t =
     (if layerIndex < 0 \<or> layerIndex \<ge> int (length (layers m)) \<or>
         x < 0 \<or> x \<ge> tm_width m \<or> y < 0 \<or> y \<ge> tm_height m
      then m
      else (let l = layers m ! nat layerIndex;
                row = tiles l ! nat y
            in m\<lparr>layers := (layers m)[nat layerIndex :=
                    l\<lparr>tiles := (tiles l)[nat y := row[nat x := t]]\<rparr>]\<rparr>))"

text \<open>\<open>isSolid\<close>: true as soon as one layer has a solid tile at the position.\<close>

definition isSolid :: "TileMap \<Rightarrow> int \<Rightarrow> int \<Rightarrow> bool" where
  "isSolid m x y =
     list_ex (\<lambda>i. case getTile m (int i) x y of None \<Rightarrow> False | Some t \<Rightarrow> tile_solid t)
       [0..<length (layers m)]"

section \<open>MazeGenerator: construction\<close>

record MazeGenerator =
  mg_width :: int
  mg_height :: int

text \<open>The constructor stores the two numbers; it checks nothing.\<close>

definition MazeGenerator_new :: "int \<Rightarrow> int \<Rightarrow> error + MazeGenerator" where
  "MazeGenerator_new w h = Inr \<lparr>mg_width = w, mg_height = h\<rparr>"

section \<open>Entities (Entity.ts)\<close>

text \<open>
  \<open>BaseEntity\<close> and its subclass \<open>Player\<close> share one record: the fields that only a
  \<open>Player\<close> has are in \<open>playerData\<close>, which is \<open>None\<close> for a plain \<open>BaseEntity\<close>
  (\<open>entity instanceof Player\<close> is \<open>playerData e \<noteq> None\<close>). The sprite and the property
  bag belong to rendering and are left out.
\<close>

record Vec2 =
  vx :: real
  vy :: real

record PlayerData =
  health :: int
  score :: int
  speed :: real

record Entity =
  ent_id :: string
  ent_x :: real
  ent_y :: real
  ent_width :: real
  ent_height :: real
  velocity :: Vec2
  solid :: bool
  active :: bool
  tags :: "string list"
  playerData :: "PlayerData option"

text \<open>
  \<open>BaseEntity.update\<close>: Euler step, \<open>deltaTime\<close> in milliseconds:
  \<^verbatim>\<open>this.x += this.velocity.x * (deltaTime / 1000)\<close>, and the same for \<open>y\<close>.
\<close>

definition entity_update :: "Arith \<Rightarrow> real \<Rightarrow> Entity \<Rightarrow> Entity" where
  "entity_update ar deltaTime e =
     e\<lparr>ent_x := fadd ar (ent_x e) (fmul ar (vx (velocity e)) (fdiv ar deltaTime 1000)),
       ent_y := fadd ar (ent_y e) (fmul ar (vy (velocity e)) (fdiv ar deltaTime 1000))\<rparr>"

text \<open>\<open>Player.move\<close>: the velocity is reset, then one component is set from the direction.\<close>

definition move :: "Direction \<Rightarrow> Entity \<Rightarrow> Entity" where
  "move direction e =
     (case playerData e of
        None \<Rightarrow> e
      | Some p \<Rightarrow>
          e\<lparr>velocity :=
              (case direction of
                 UP \<Rightarrow> \<lparr>vx = 0, vy = - speed p\<rparr>
               | RIGHT \<Rightarrow> \<lparr>vx = speed p, vy = 0\<rparr>
               | DOWN \<Rightarrow> \<lparr>vx = 0, vy = speed p\<rparr>
               | LEFT \<Rightarrow> \<lparr>vx = - speed p, vy = 0\<rparr>
               | NONE \<Rightarrow> \<lparr>vx = 0, vy = 0\<rparr>)\<rparr>)"

text \<open>
  \<open>onCollision self other\<close>: nothing for a \<open>BaseEntity\<close>; a \<open>Player\<close> loses 10 health on
  an enemy, else gains 10 score on a collectible.
\<close>

definition onCollision :: "Entity \<Rightarrow> Entity \<Rightarrow> Entity" where
  "onCollision self other =
     (case playerData self of
        None \<Rightarrow> self
      | Some p \<Rightarrow>
          if ''enemy'' \<in> set (tags other)
          then self\<lparr>playerData := Some (p\<lparr>health := health p - 10\<rparr>)\<rparr>
          else if ''collectible'' \<in> set (tags other)
          then self\<lparr>playerData := Some (p\<lparr>score := score p + 10\<rparr>)\<rparr>
          else self)"

section \<open>CollisionSystem (Collision.ts)\<close>

definition checkCollision :: "Entity \<Rightarrow> Entity \<Rightarrow> bool" where
  "checkCollision entity1 entity2 =
     (if \<not> solid entity1 \<or> \<not> solid entity2 then False
      else ent_x entity1 < ent_x entity2 + ent_width entity2 \<and>
           ent_x entity1 + ent_width entity1 > ent_x entity2 \<and>
           ent_y entity1 < ent_y entity2 + ent_height entity2 \<and>
           ent_y entity1 + ent_height entity1 > ent_y entity2)"

text \<open>
  \<open>checkTileCollision\<close>. The three nested counting loops (layer, then \<open>y\<close>, then \<open>x\<close>)
  push the solid tiles in that order. The divisions are by \<open>tileSize\<close>; the model is
  that of the code for \<open>tileSize \<noteq> 0\<close> (in JavaScript a division by zero gives an
  infinity or NaN, in HOL it gives 0), and the theorems below assume it.
\<close>

definition checkTileCollision :: "Entity \<Rightarrow> TileMap \<Rightarrow> bool \<times> (int \<times> int \<times> Tile) list" where
  "checkTileCollision entity tileMap =
     (if \<not> solid entity then (False, [])
      else
        (let ts = tileSize tileMap;
             startX = \<lfloor>ent_x entity / ts\<rfloor>;
             startY = \<lfloor>ent_y entity / ts\<rfloor>;
             endX = \<lfloor>(ent_x entity + ent_width entity - 1) / ts\<rfloor>;
             endY = \<lfloor>(ent_y entity + ent_height entity - 1) / ts\<rfloor>;
             collisionTiles =
               concat (map (\<lambda>layerIndex.
                 concat (map (\<lambda>y.
                   concat (map (\<lambda>x.
                     (case getTile tileMap (int layerIndex) x y of
                        None \<Rightarrow> []
                      | Some tile \<Rightarrow> if tile_solid tile then [(x, y, tile)] else []))
                   [startX..endX]))
                 [startY..endY]))
               [0..<length (layers tileMap)])
         in (collisionTiles \<noteq> [], collisionTiles)))"

text \<open>
  \<open>resolveCollision\<close> mutates both entities (the first is moved, both get their
  \<open>onCollision\<close> call); the model returns the pair.
\<close>

definition resolveCollision :: "Entity \<Rightarrow> Entity \<Rightarrow> Entity \<times> Entity" where
  "resolveCollision entity1 entity2 =
     (if \<not> checkCollision entity1 entity2 then (entity1, entity2)
      else
        (let overlapX = min (ent_x entity1 + ent_width entity1 - ent_x entity2)
                            (ent_x entity2 + ent_width entity2 - ent_x entity1);
             overlapY = min (ent_y entity1 + ent_height entity1 - ent_y entity2)
                            (ent_y entity2 + ent_height entity2 - ent_y entity1);
             e1 = (if overlapX < overlapY
                   then entity1\<lparr>ent_x := (if ent_x entity1 < ent_x entity2
                                           then ent_x entity2 - ent_width entity1
                                           else ent_x entity2 + ent_width entity2),
                                 velocity := (velocity entity1)\<lparr>vx := 0\<rparr>\<rparr>
                   else entity1\<lparr>ent_y := (if ent_y entity1 < ent_y entity2
                                           then ent_y entity2 - ent_height entity1
                                           else ent_y entity2 + ent_height entity2),
                                 velocity := (velocity entity1)\<lparr>vy := 0\<rparr>\<rparr>);
             e1' = onCollision e1 entity2;
             e2' = onCollision entity2 e1'
         in (e1', e2')))"

text \<open>One iteration of the loop of \<open>resolveTileCollision\<close>, for the tile at \<open>(x, y)\<close>.\<close>

definition resolveTile :: "real \<Rightarrow> int \<times> int \<times> Tile \<Rightarrow> Entity \<Rightarrow> Entity" where
  "resolveTile ts c entity =
     (let tileX = of_int (fst c) * ts;
          tileY = of_int (fst (snd c)) * ts;
          overlapX = min (ent_x entity + ent_width entity - tileX) (tileX + ts - ent_x entity);
          overlapY = min (ent_y entity + ent_height entity - tileY) (tileY + ts - ent_y entity)
      in if overlapX < overlapY
         then entity\<lparr>ent_x := (if ent_x entity < tileX then tileX - ent_width entity
                                else tileX + ts),
                     velocity := (velocity entity)\<lparr>vx := 0\<rparr>\<rparr>
         else entity\<lparr>ent_y := (if ent_y entity < tileY then tileY - ent_height entity
                                else tileY + ts),
                     velocity := (velocity entity)\<lparr>vy := 0\<rparr>\<rparr>)"

definition resolveTileCollision :: "Entity \<Rightarrow> TileMap \<Rightarrow> Entity" where
  "resolveTileCollision entity tileMap =
     (let result = checkTileCollision entity tileMap
      in if \<not> fst result then entity
         else fold (resolveTile (tileSize tileMap)) (snd result) entity)"

section \<open>InputSystem (Input.ts)\<close>

text \<open>
  The two key tables are maps from the key name to its flag. Every look-up in the
  engine passes a lower-case literal, on which \<open>toLowerCase\<close> is the identity.
\<close>

record InputSystem =
  keys :: "string \<rightharpoonup> bool"
  previousKeys :: "string \<rightharpoonup> bool"

definition input_update :: "InputSystem \<Rightarrow> InputSystem" where
  "input_update i = i\<lparr>previousKeys := keys i\<rparr>"

definition isKeyDown :: "InputSystem \<Rightarrow> string \<Rightarrow> bool" where
  "isKeyDown i k = (keys i k = Some True)"

definition isKeyPressed :: "InputSystem \<Rightarrow> string \<Rightarrow> bool" where
  "isKeyPressed i k = (keys i k = Some True \<and> previousKeys i k \<noteq> Some True)"

definition getDirection :: "InputSystem \<Rightarrow> Direction" where
  "getDirection i =
     (if isKeyDown i ''arrowup'' \<or> isKeyDown i ''w'' then UP
      else if isKeyDown i ''arrowright'' \<or> isKeyDown i ''d'' then RIGHT
      else if isKeyDown i ''arrowdown'' \<or> isKeyDown i ''s'' then DOWN
      else if isKeyDown i ''arrowleft'' \<or> isKeyDown i ''a'' then LEFT
      else NONE)"

section \<open>GameEngine (GameEngine.ts)\<close>

text \<open>
  The engine without its canvas. \<open>player\<close> is a reference to one element of
  \<open>entities\<close> (\<open>addEntity\<close> stores it when it pushes a \<open>Player\<close>); the model keeps the
  position of that element in the list. \<open>fps\<close> and \<open>frameTime\<close> are set once by the
  constructor, \<^verbatim>\<open>this.fps = 60; this.frameTime = 1000 / this.fps;\<close>, and never written
  again: \<open>frameTime\<close> is the double that the division returns.
\<close>

record GameEngine =
  lastTime :: real
  running :: bool
  paused :: bool
  accumulator :: real
  inputSystem :: InputSystem
  tileMap :: "TileMap option"
  entities :: "Entity list"
  player :: "nat option"
  state :: GameState

definition frameTime :: "Arith \<Rightarrow> real" where
  "frameTime ar = fdiv ar 1000 60"

definition thePlayer :: "GameEngine \<Rightarrow> Entity option" where
  "thePlayer g =
     (case player g of
        None \<Rightarrow> None
      | Some i \<Rightarrow> if i < length (entities g) then Some (entities g ! i) else None)"

definition initialState :: GameState where
  "initialState = \<lparr>gs_running = True, gs_paused = False, gs_score = 0, gs_level = 1,
                    gameOver = False, won = False\<rparr>"

definition isStartTile :: "Tile option \<Rightarrow> bool" where
  "isStartTile t = (case t of None \<Rightarrow> False | Some tile \<Rightarrow> tile_type tile = START)"

text \<open>
  The scan of \<open>restart\<close> for the start tile. The \<open>break\<close> leaves the inner loop only:
  in every row the first start tile of the row moves the player, and the scan goes on
  with the next row.
\<close>

definition scanRow :: "TileMap \<Rightarrow> int \<Rightarrow> Entity \<Rightarrow> Entity" where
  "scanRow m y p =
     (case List.find (\<lambda>x. isStartTile (getTile m 0 x y)) [0..tm_width m - 1] of
        None \<Rightarrow> p
      | Some x \<Rightarrow> p\<lparr>ent_x := of_int x * tileSize m, ent_y := of_int y * tileSize m\<rparr>)"

definition restart :: "GameEngine \<Rightarrow> GameEngine" where
  "restart g =
     (let g1 = g\<lparr>state := initialState\<rparr>
      in case player g1 of
           None \<Rightarrow> g1
         | Some i \<Rightarrow>
             if i < length (entities g1)
             then (let p = entities g1 ! i;
                       p1 = p\<lparr>playerData :=
                               map_option (\<lambda>d. d\<lparr>health := 100, score := 0\<rparr>) (playerData p)\<rparr>;
                       p2 = (case tileMap g1 of
                               None \<Rightarrow> p1
                             | Some m \<Rightarrow> fold (scanRow m) [0..tm_height m - 1] p1)
                   in g1\<lparr>entities := (entities g1)[i := p2]\<rparr>)
             else g1)"

text \<open>
  \<open>checkGameState\<close>: three statements in sequence, the win test, the lose test and
  the restart test. \<open>playerDead\<close> is \<open>this.player.health <= 0\<close>; the health of a
  \<open>Player\<close> is in its \<open>playerData\<close>.
\<close>

definition playerDead :: "Entity \<Rightarrow> bool" where
  "playerDead p = (case playerData p of None \<Rightarrow> False | Some d \<Rightarrow> health d \<le> 0)"

definition checkGameState :: "GameEngine \<Rightarrow> GameEngine" where
  "checkGameState g =
     (case thePlayer g of
        None \<Rightarrow> g
      | Some p \<Rightarrow>
          (let st1 =
                 (case tileMap g of
                    None \<Rightarrow> state g
                  | Some m \<Rightarrow>
                      (let playerTileX = \<lfloor>ent_x p / tileSize m\<rfloor>;
                           playerTileY = \<lfloor>ent_y p / tileSize m\<rfloor>
                       in case getTile m 0 playerTileX playerTileY of
                            None \<Rightarrow> state g
                          | Some tile \<Rightarrow>
                              if tile_type tile = END
                              then (state g)\<lparr>gameOver := True, won := True\<rparr>
                              else state g));
               st2 = (if playerDead p then st1\<lparr>gameOver := True, won := False\<rparr>
                      else st1);
               g2 = g\<lparr>state := st2\<rparr>
           in if gameOver st2 \<and> isKeyPressed (inputSystem g) ''space'' then restart g2
              else g2))"

text \<open>
  The pair loop of \<open>update\<close>: for every \<open>i\<close>, and every \<open>j > i\<close>, both active and solid,
  \<open>resolveCollision\<close> when they overlap. The list is read again at every iteration,
  as the objects are in the source.
\<close>

definition resolvePair :: "nat \<Rightarrow> nat \<Rightarrow> Entity list \<Rightarrow> Entity list" where
  "resolvePair i j es =
     (let entity2 = es ! j
      in if \<not> active entity2 \<or> \<not> solid entity2 then es
         else if checkCollision (es ! i) entity2
         then (let r = resolveCollision (es ! i) entity2 in es[i := fst r, j := snd r])
         else es)"

definition resolvePairs :: "Entity list \<Rightarrow> Entity list" where
  "resolvePairs es0 =
     fold (\<lambda>i es. if \<not> active (es ! i) \<or> \<not> solid (es ! i) then es
                   else fold (resolvePair i) [Suc i..<length es0] es)
       [0..<length es0] es0"

definition update :: "Arith \<Rightarrow> real \<Rightarrow> GameEngine \<Rightarrow> GameEngine" where
  "update ar deltaTime g =
     (let g1 = (case player g of
                  None \<Rightarrow> g
                | Some i \<Rightarrow>
                    if i < length (entities g)
                    then g\<lparr>entities :=
                           (entities g)[i := move (getDirection (inputSystem g)) (entities g ! i)]\<rparr>
                    else g);
          g2 = g1\<lparr>entities :=
                   map (\<lambda>e. if active e then entity_update ar deltaTime e else e)
                     (entities g1)\<rparr>;
          g3 = (case tileMap g2 of
                  None \<Rightarrow> g2
                | Some m \<Rightarrow>
                    g2\<lparr>entities :=
                         map (\<lambda>e. if active e \<and> solid e then resolveTileCollision e m else e)
                           (entities g2)\<rparr>);
          g4 = g3\<lparr>entities := resolvePairs (entities g3)\<rparr>
      in checkGameState g4)"

text \<open>
  The accumulator loop of \<open>gameLoop\<close>:
  \<^verbatim>\<open>while (this.accumulator >= this.frameTime) { this.update(this.frameTime); this.accumulator -= this.frameTime; }\<close>
  The comparison of two finite doubles is that of their values. Whether the loop
  ends depends on the arithmetic (a large accumulator absorbs the subtraction), so
  the loop is a partial function: \<open>None\<close> when it does not end.
\<close>

partial_function (option) runSteps :: "Arith \<Rightarrow> GameEngine \<Rightarrow> GameEngine option" where
  "runSteps ar g =
     (if accumulator g \<ge> frameTime ar
      then runSteps ar ((update ar (frameTime ar) g)
                          \<lparr>accumulator :=
                             fsub ar (accumulator (update ar (frameTime ar) g)) (frameTime ar)\<rparr>)
      else Some g)"

declare runSteps.simps [code]

text \<open>
  \<open>gameLoop\<close> without its rendering and without the request for the next frame: the
  state after one frame callback with the given timestamp, when the callback returns.
\<close>

definition gameLoop :: "Arith \<Rightarrow> real \<Rightarrow> GameEngine \<Rightarrow> GameEngine option" where
  "gameLoop ar timestamp g =
     (if \<not> running g then Some g
      else
        (let deltaTime = fsub ar timestamp (lastTime g);
             g1 = g\<lparr>lastTime := timestamp, inputSystem := input_update (inputSystem g)\<rparr>
         in if \<not> paused g1
            then runSteps ar (g1\<lparr>accumulator := fadd ar (accumulator g1) deltaTime\<rparr>)
            else Some g1))"

section \<open>MazeGenerator.generate (TileMap.ts)\<close>

definition wallTile :: Tile where
  "wallTile = \<lparr>tile_id = 1, tile_type = WALL, tile_solid = True, tile_spriteId = None\<rparr>"

definition startTile :: Tile where
  "startTile = \<lparr>tile_id = 2, tile_type = START, tile_solid = False, tile_spriteId = None\<rparr>"

definition endTile :: Tile where
  "endTile = \<lparr>tile_id = 3, tile_type = END, tile_solid = False, tile_spriteId = None\<rparr>"

definition pathTile :: Tile where
  "pathTile = \<lparr>tile_id = 4, tile_type = PATH, tile_solid = False, tile_spriteId = None\<rparr>"

text \<open>The first pair of loops: every cell of layer 0 becomes a wall.\<close>

definition fillWalls :: "int \<Rightarrow> int \<Rightarrow> TileMap \<Rightarrow> TileMap" where
  "fillWalls w h m0 =
     fold (\<lambda>y m. fold (\<lambda>x m'. setTile m' 0 x y wallTile) [0..w - 1] m) [0..h - 1] m0"

text \<open>
  The state of the carving loop. \<open>stack\<close> is the JavaScript array, its top is its last
  element. \<open>visited\<close> is the table \<open>boolean[][]\<close>, kept as the set of the positions
  \<open>(x, y)\<close> whose entry is \<open>true\<close>; the loop reads and writes it only at positions
  inside the \<open>width \<times> height\<close> rectangle. \<open>randomCalls\<close> counts the calls of
  \<open>Math.random\<close> so far.
\<close>

record CarveState =
  stack :: "(int \<times> int) list"
  visited :: "(int \<times> int) set"
  maze :: TileMap
  randomCalls :: nat

text \<open>
  What comes before the loop. \<open>Array(n)\<close> raises a \<open>RangeError\<close> for a negative \<open>n\<close>:
  for the height at once, for the width in the callback of \<open>map\<close>, which runs when
  there is at least one row. With fewer than two rows \<open>visited[1]\<close> is \<open>undefined\<close> and
  the assignment \<open>visited[startY][startX] = true\<close> raises a \<open>TypeError\<close>. (Sizes beyond
  what an array can hold are outside the model.)
\<close>

definition carveInit :: "int \<Rightarrow> int \<Rightarrow> error + CarveState" where
  "carveInit w h =
     (case TileMap_new w h 32 of
        Inl e \<Rightarrow> Inl e
      | Inr m0 \<Rightarrow>
          (case createLayer m0 ''maze'' of
             Inl e \<Rightarrow> Inl e
           | Inr r \<Rightarrow>
               (let m1 = fillWalls w h (fst r)
                in if h < 0 then Inl RangeError
                   else if 0 < h \<and> w < 0 then Inl RangeError
                   else if h < 2 then Inl TypeError
                   else Inr \<lparr>stack = [(1, 1)], visited = {(1, 1)},
                             maze = setTile m1 0 1 1 startTile, randomCalls = 0\<rparr>)))"

definition directions :: "(int \<times> int) list" where
  "directions = [(0, -2), (2, 0), (0, 2), (-2, 0)]"

definition neighbors :: "int \<Rightarrow> int \<Rightarrow> (int \<times> int) set \<Rightarrow> int \<times> int \<Rightarrow> (int \<times> int) list" where
  "neighbors w h vis current =
     filter (\<lambda>n. fst n > 0 \<and> fst n < w - 1 \<and> snd n > 0 \<and> snd n < h - 1 \<and> n \<notin> vis)
       (map (\<lambda>dir. (fst current + fst dir, snd current + snd dir)) directions)"

text \<open>
  One iteration of the \<open>while\<close> loop. \<open>Math.random()\<close> is in \<open>[0, 1)\<close>, so
  \<open>Math.floor(Math.random() * neighbors.length)\<close> is an index of \<open>neighbors\<close>; the
  random source is the parameter \<open>rand\<close>, whose \<open>k\<close>-th value, reduced modulo the
  number of neighbours, is the index drawn by the \<open>k\<close>-th call. Every sequence of
  draws is some \<open>rand\<close>. The difference \<open>next - current\<close> is \<open>\<plusminus>2\<close> or \<open>0\<close> on each axis,
  so its half is exact.
\<close>

definition carveStep :: "int \<Rightarrow> int \<Rightarrow> (nat \<Rightarrow> nat) \<Rightarrow> CarveState \<Rightarrow> CarveState" where
  "carveStep w h rand s =
     (let current = last (stack s);
          ns = neighbors w h (visited s) current
      in if ns \<noteq> []
         then (let next = ns ! (rand (randomCalls s) mod length ns);
                   wallX = fst current + (fst next - fst current) div 2;
                   wallY = snd current + (snd next - snd current) div 2;
                   m1 = setTile (maze s) 0 wallX wallY pathTile;
                   m2 = setTile m1 0 (fst next) (snd next) pathTile
               in s\<lparr>stack := stack s @ [next], visited := insert next (visited s),
                     maze := m2, randomCalls := Suc (randomCalls s)\<rparr>)
         else s\<lparr>stack := butlast (stack s)\<rparr>)"

definition interior :: "int \<Rightarrow> int \<Rightarrow> (int \<times> int) set" where
  "interior w h = {0<..<w - 1} \<times> {0<..<h - 1}"

lemma neighbors_interior:
  "n \<in> set (neighbors w h vis c) \<Longrightarrow> n \<in> interior w h \<and> n \<notin> vis"
  by (auto simp: neighbors_def interior_def mem_Times_iff)

lemma finite_interior: "finite (interior w h)"
  by (simp add: interior_def)

lemma carveStep_measure:
  assumes "stack s \<noteq> []"
  shows "card (interior w h - visited (carveStep w h rand s)) < card (interior w h - visited s)
         \<or> (card (interior w h - visited (carveStep w h rand s)) = card (interior w h - visited s)
            \<and> length (stack (carveStep w h rand s)) < length (stack s))"
proof (cases "neighbors w h (visited s) (last (stack s)) = []")
  case True
  then show ?thesis using assms by (simp add: carveStep_def Let_def)
next
  case False
  define ns where "ns = neighbors w h (visited s) (last (stack s))"
  define n where "n = ns ! (rand (randomCalls s) mod length ns)"
  have "n \<in> set ns" using False by (simp add: n_def ns_def)
  then have n: "n \<in> interior w h" "n \<notin> visited s"
    using neighbors_interior by (auto simp: ns_def)
  have v: "visited (carveStep w h rand s) = insert n (visited s)"
    using False by (simp add: carveStep_def Let_def n_def ns_def)
  have "interior w h - insert n (visited s) \<subset> interior w h - visited s"
    using n by blast
  then have "card (interior w h - insert n (visited s)) < card (interior w h - visited s)"
    by (intro psubset_card_mono) (simp_all add: finite_interior)
  then show ?thesis by (simp add: v)
qed

function carveLoop :: "int \<Rightarrow> int \<Rightarrow> (nat \<Rightarrow> nat) \<Rightarrow> CarveState \<Rightarrow> CarveState" where
  "carveLoop w h rand s =
     (if stack s \<noteq> [] then carveLoop w h rand (carveStep w h rand s) else s)"
  by pat_completeness auto
termination
proof (relation "measures [\<lambda>(w, h, rand, s). card (interior w h - visited s),
                           \<lambda>(w, h, rand, s). length (stack s)]", goal_cases)
  case 1
  show ?case by simp
next
  case (2 w h rand s)
  then show ?case using carveStep_measure [of s w h rand] by auto
qed

declare carveLoop.simps [simp del]

text \<open>
  The scan for the end cell: \<open>y = 1, 3, \<dots> < height - 1\<close>, and in each row
  \<open>x = 1, 3, \<dots> < width - 1\<close>. The accumulator is \<open>(maxDistance, endX, endY)\<close>.
\<close>

definition oddsBelow :: "int \<Rightarrow> int list" where
  "oddsBelow n = filter odd [1..n - 1]"

definition isPathTile :: "Tile option \<Rightarrow> bool" where
  "isPathTile t = (case t of None \<Rightarrow> False | Some tile \<Rightarrow> tile_type tile = PATH)"

definition scanCell :: "TileMap \<Rightarrow> int \<Rightarrow> int \<Rightarrow> int \<times> int \<times> int \<Rightarrow> int \<times> int \<times> int" where
  "scanCell m y x acc =
     (if isPathTile (getTile m 0 x y)
      then (let distance = \<bar>x - 1\<bar> + \<bar>y - 1\<bar>
            in if distance > fst acc then (distance, x, y) else acc)
      else acc)"

definition findEnd :: "int \<Rightarrow> int \<Rightarrow> TileMap \<Rightarrow> int \<times> int \<times> int" where
  "findEnd w h m =
     fold (\<lambda>y acc. fold (scanCell m y) (oddsBelow (w - 1)) acc) (oddsBelow (h - 1)) (0, 1, 1)"

definition generate :: "int \<Rightarrow> int \<Rightarrow> (nat \<Rightarrow> nat) \<Rightarrow> error + TileMap" where
  "generate w h rand =
     (case carveInit w h of
        Inl e \<Rightarrow> Inl e
      | Inr s0 \<Rightarrow>
          (let s = carveLoop w h rand s0;
               e = findEnd w h (maze s)
           in Inr (setTile (maze s) 0 (fst (snd e)) (snd (snd e)) endTile)))"

definition MazeGenerator_generate :: "MazeGenerator \<Rightarrow> (nat \<Rightarrow> nat) \<Rightarrow> error + TileMap" where
  "MazeGenerator_generate g rand = generate (mg_width g) (mg_height g) rand"


section \<open>Runs of the frame callback\<close>

text \<open>
  Between two frame callbacks the key handlers run; a frame is the key table they
  leave and the timestamp passed to \<open>gameLoop\<close>. A run is \<open>None\<close> when one of its
  callbacks does not return.
\<close>

type_synonym frame = "(string \<rightharpoonup> bool) \<times> real"

definition runFrame :: "Arith \<Rightarrow> frame \<Rightarrow> GameEngine \<Rightarrow> GameEngine option" where
  "runFrame ar f g = gameLoop ar (snd f) (g\<lparr>inputSystem := (inputSystem g)\<lparr>keys := fst f\<rparr>\<rparr>)"

fun runFrames :: "Arith \<Rightarrow> frame list \<Rightarrow> GameEngine \<Rightarrow> GameEngine option" where
  "runFrames ar [] g = Some g"
| "runFrames ar (f # fs) g =
     (case runFrame ar f g of None \<Rightarrow> None | Some g' \<Rightarrow> runFrames ar fs g')"

text \<open>
  The number of physics steps that the accumulator loop runs from an accumulator
  value, and the directions read by the steps of a frame and of a run.
\<close>

partial_function (option) stepCount :: "Arith \<Rightarrow> real \<Rightarrow> nat option" where
  "stepCount ar a =
     (if a \<ge> frameTime ar
      then Option.bind (stepCount ar (fsub ar a (frameTime ar))) (\<lambda>k. Some (Suc k))
      else Some 0)"

declare stepCount.simps [code]

definition frameDirections :: "Arith \<Rightarrow> frame \<Rightarrow> GameEngine \<Rightarrow> Direction list option" where
  "frameDirections ar f g =
     (if \<not> running g \<or> paused g then Some []
      else map_option
             (\<lambda>k. replicate k (getDirection \<lparr>keys = fst f, previousKeys = fst f\<rparr>))
             (stepCount ar (fadd ar (accumulator g) (fsub ar (snd f) (lastTime g)))))"

fun runDirections :: "Arith \<Rightarrow> frame list \<Rightarrow> GameEngine \<Rightarrow> Direction list option" where
  "runDirections ar [] g = Some []"
| "runDirections ar (f # fs) g =
     (case frameDirections ar f g of
        None \<Rightarrow> None
      | Some ds \<Rightarrow>
          (case runFrame ar f g of
             None \<Rightarrow> None
           | Some g' \<Rightarrow> map_option (\<lambda>ds'. ds @ ds') (runDirections ar fs g')))"

text \<open>
  One physics step for a given direction, whatever the keys: the key table is
  replaced by one that yields the direction, with no key newly pressed.
\<close>

definition directionKeys :: "Direction \<Rightarrow> InputSystem" where
  "directionKeys d =
     (let k = (case d of UP \<Rightarrow> [''w'' \<mapsto> True] | RIGHT \<Rightarrow> [''d'' \<mapsto> True]
               | DOWN \<Rightarrow> [''s'' \<mapsto> True] | LEFT \<Rightarrow> [''a'' \<mapsto> True] | NONE \<Rightarrow> Map.empty)
      in \<lparr>keys = k, previousKeys = k\<rparr>)"

definition physicsStep :: "Arith \<Rightarrow> Direction \<Rightarrow> GameEngine \<Rightarrow> GameEngine" where
  "physicsStep ar d g = update ar (frameTime ar) (g\<lparr>inputSystem := directionKeys d\<rparr>)"

definition sameWorld :: "GameEngine \<Rightarrow> GameEngine \<Rightarrow> bool" where
  "sameWorld g g' =
     (tileMap g = tileMap g' \<and> entities g = entities g' \<and> player g = player g'
      \<and> state g = state g')"


section \<open>Cells, walks and the state of the carving loop\<close>

text \<open>
  Positions are pairs \<open>(x, y)\<close>. \<open>grid m c\<close> is the tile of layer 0 at \<open>c\<close>, \<open>openCell\<close>
  says that it is there and not solid. The cells with both coordinates odd are the
  lattice cells of the generator, those with exactly one odd coordinate lie between
  two lattice cells.
\<close>

definition grid :: "TileMap \<Rightarrow> int \<times> int \<Rightarrow> Tile option" where
  "grid m c = getTile m 0 (fst c) (snd c)"

definition inBounds :: "int \<Rightarrow> int \<Rightarrow> int \<times> int \<Rightarrow> bool" where
  "inBounds w h c = (0 \<le> fst c \<and> fst c < w \<and> 0 \<le> snd c \<and> snd c < h)"

definition latticeCell :: "int \<times> int \<Rightarrow> bool" where
  "latticeCell c = (odd (fst c) \<and> odd (snd c))"

definition betweenCell :: "int \<times> int \<Rightarrow> bool" where
  "betweenCell c = (odd (fst c) \<noteq> odd (snd c))"

definition openCell :: "TileMap \<Rightarrow> int \<times> int \<Rightarrow> bool" where
  "openCell m c = (case grid m c of None \<Rightarrow> False | Some t \<Rightarrow> \<not> tile_solid t)"

definition adjacent :: "int \<times> int \<Rightarrow> int \<times> int \<Rightarrow> bool" where
  "adjacent a b = (\<bar>fst a - fst b\<bar> + \<bar>snd a - snd b\<bar> = 1)"

text \<open>
  A map of one layer whose rows have the declared sizes, as \<open>createLayer\<close> builds it.
\<close>

definition wfMap :: "int \<Rightarrow> int \<Rightarrow> TileMap \<Rightarrow> bool" where
  "wfMap w h m =
     (tm_width m = w \<and> tm_height m = h \<and> length (layers m) = 1
      \<and> length (tiles (layers m ! 0)) = nat h
      \<and> (\<forall>r \<in> set (tiles (layers m ! 0)). length r = nat w))"

definition midpoint :: "int \<times> int \<Rightarrow> int \<times> int \<Rightarrow> int \<times> int" where
  "midpoint a b = (fst a + (fst b - fst a) div 2, snd a + (snd b - snd a) div 2)"

definition twoApart :: "int \<times> int \<Rightarrow> int \<times> int \<Rightarrow> bool" where
  "twoApart a b = ((fst b = fst a \<and> \<bar>snd b - snd a\<bar> = 2) \<or> (snd b = snd a \<and> \<bar>fst b - fst a\<bar> = 2))"

text \<open>
  What holds of the state before and after every iteration: the map keeps its shape;
  the visited positions are \<open>(1, 1)\<close> and lattice cells strictly inside the border;
  the stack holds visited positions; the start tile is at \<open>(1, 1)\<close> and nowhere else;
  a lattice cell is a path tile exactly when it is visited and is not \<open>(1, 1)\<close>; a
  path tile off the lattice lies between two lattice cells, both visited.
\<close>

definition structInv :: "int \<Rightarrow> int \<Rightarrow> CarveState \<Rightarrow> bool" where
  "structInv w h s =
     (wfMap w h (maze s)
      \<and> (1, 1) \<in> visited s
      \<and> (\<forall>c \<in> visited s. c = (1, 1) \<or> (c \<in> interior w h \<and> latticeCell c))
      \<and> set (stack s) \<subseteq> visited s
      \<and> (\<forall>c. inBounds w h c \<longrightarrow>
             grid (maze s) c = Some wallTile \<or> grid (maze s) c = Some startTile
             \<or> grid (maze s) c = Some pathTile)
      \<and> (\<forall>c. grid (maze s) c = Some startTile \<longleftrightarrow> c = (1, 1) \<and> inBounds w h c)
      \<and> (\<forall>c. latticeCell c \<longrightarrow>
             (grid (maze s) c = Some pathTile \<longleftrightarrow> c \<in> visited s \<and> c \<noteq> (1, 1)))
      \<and> (\<forall>c. grid (maze s) c = Some pathTile \<and> \<not> latticeCell c \<longrightarrow>
             betweenCell c \<and> (\<forall>a. latticeCell a \<and> adjacent a c \<longrightarrow> a \<in> visited s)))"

text \<open>
  The facts about an iteration that pushes the position \<open>n\<close>, from the state \<open>s\<close> to
  the state \<open>s'\<close>.
\<close>

definition pushed :: "int \<Rightarrow> int \<Rightarrow> CarveState \<Rightarrow> CarveState \<Rightarrow> int \<times> int \<Rightarrow> bool" where
  "pushed w h s s' n =
     (twoApart (last (stack s)) n \<and> n \<in> interior w h \<and> n \<notin> visited s
      \<and> latticeCell (last (stack s)) \<and> last (stack s) \<in> visited s
      \<and> inBounds w h (last (stack s)) \<and> inBounds w h n
      \<and> inBounds w h (midpoint (last (stack s)) n) \<and> inBounds w h (1, 1)
      \<and> stack s' = stack s @ [n]
      \<and> visited s' = insert n (visited s)
      \<and> randomCalls s' = Suc (randomCalls s)
      \<and> wfMap w h (maze s')
      \<and> (\<forall>c. grid (maze s') c
              = (if c = n \<or> c = midpoint (last (stack s)) n then Some pathTile
                 else grid (maze s) c)))"

text \<open>
  \<open>walk m\<close> is one move between two 4-adjacent cells that are both open; a cell is
  reachable from another when the reflexive transitive closure relates them. A
  cycle is a list of at least three distinct open cells in which every cell is
  adjacent to the next one, and the last one to the first.
\<close>

definition walk :: "TileMap \<Rightarrow> ((int \<times> int) \<times> (int \<times> int)) set" where
  "walk m = {(a, b). openCell m a \<and> openCell m b \<and> adjacent a b}"

definition isCycle :: "TileMap \<Rightarrow> (int \<times> int) list \<Rightarrow> bool" where
  "isCycle m p =
     (3 \<le> length p \<and> distinct p \<and> (\<forall>c \<in> set p. openCell m c)
      \<and> (\<forall>i < length p. adjacent (p ! i) (p ! (Suc i mod length p))))"

definition connInv :: "CarveState \<Rightarrow> bool" where
  "connInv s = (\<forall>c. openCell (maze s) c \<longrightarrow> ((1, 1), c) \<in> (walk (maze s))\<^sup>*)"

definition acycInv :: "CarveState \<Rightarrow> bool" where
  "acycInv s = (\<not> (\<exists>p. isCycle (maze s) p))"

definition countInv :: "CarveState \<Rightarrow> bool" where
  "countInv s =
     (finite (visited s) \<and> card (visited s) = Suc (randomCalls s)
      \<and> finite {c. betweenCell c \<and> grid (maze s) c = Some pathTile}
      \<and> card {c. betweenCell c \<and> grid (maze s) c = Some pathTile} = randomCalls s)"

definition carveInv :: "int \<Rightarrow> int \<Rightarrow> CarveState \<Rightarrow> bool" where
  "carveInv w h s = (structInv w h s \<and> connInv s \<and> acycInv s \<and> countInv s)"

text \<open>
  The number of times that the body of the \<open>while\<close> loop runs from a state.
\<close>

function carveIterations :: "int \<Rightarrow> int \<Rightarrow> (nat \<Rightarrow> nat) \<Rightarrow> CarveState \<Rightarrow> nat" where
  "carveIterations w h rand s =
     (if stack s \<noteq> [] then Suc (carveIterations w h rand (carveStep w h rand s)) else 0)"
  by pat_completeness auto

termination
proof (relation "measures [\<lambda>(w, h, rand, s). card (interior w h - visited s),
                           \<lambda>(w, h, rand, s). length (stack s)]", goal_cases)
  case 1
  show ?case by simp
next
  case (2 w h rand s)
  then show ?case using carveStep_measure [of s w h rand] by auto
qed

declare carveIterations.simps [simp del]

definition oddInside :: "int \<Rightarrow> int set" where
  "oddInside k = {x. odd x \<and> 0 < x \<and> x < k - 1}"

text \<open>
  \<open>carvedMaze\<close> is the map when the carving loop has ended, before the end cell is
  chosen; \<open>generate\<close> is \<open>carvedMaze\<close> followed by \<open>placeEnd\<close>.
\<close>

definition carvedMaze :: "int \<Rightarrow> int \<Rightarrow> (nat \<Rightarrow> nat) \<Rightarrow> error + TileMap" where
  "carvedMaze w h rand =
     (case carveInit w h of
        Inl e \<Rightarrow> Inl e
      | Inr s0 \<Rightarrow> Inr (maze (carveLoop w h rand s0)))"

definition placeEnd :: "int \<Rightarrow> int \<Rightarrow> TileMap \<Rightarrow> TileMap" where
  "placeEnd w h m = setTile m 0 (fst (snd (findEnd w h m))) (snd (snd (findEnd w h m))) endTile"

definition manhattan :: "int \<times> int \<Rightarrow> int" where
  "manhattan c = \<bar>fst c - 1\<bar> + \<bar>snd c - 1\<bar>"

definition pathAt :: "TileMap \<Rightarrow> int \<times> int \<Rightarrow> bool" where
  "pathAt m c = isPathTile (grid m c)"

text \<open>The positions that the two loops of the scan visit, in the order of the scan.\<close>

definition scanOrder :: "int \<Rightarrow> int \<Rightarrow> (int \<times> int) list" where
  "scanOrder w h = concat (map (\<lambda>y. map (\<lambda>x. (x, y)) (oddsBelow (w - 1))) (oddsBelow (h - 1)))"

definition scanStep :: "TileMap \<Rightarrow> int \<times> int \<Rightarrow> int \<times> int \<times> int \<Rightarrow> int \<times> int \<times> int" where
  "scanStep m c acc = scanCell m (snd c) (fst c) acc"

definition rowMajorLess :: "int \<times> int \<Rightarrow> int \<times> int \<Rightarrow> bool" where
  "rowMajorLess a b = (snd a < snd b \<or> (snd a = snd b \<and> fst a < fst b))"

definition allCells :: "TileMap \<Rightarrow> (int \<times> int) list" where
  "allCells m = List.product [0..tm_width m - 1] [0..tm_height m - 1]"

definition carvedLattice :: "TileMap \<Rightarrow> (int \<times> int) list" where
  "carvedLattice m = filter (\<lambda>c. latticeCell c \<and> openCell m c) (allCells m)"

definition carvedBetween :: "TileMap \<Rightarrow> (int \<times> int) list" where
  "carvedBetween m = filter (\<lambda>c. betweenCell c \<and> openCell m c) (allCells m)"


section \<open>Concrete inputs\<close>

text \<open>Inputs for the closed theorems below; every number is a small integer.\<close>

definition layer1 :: TileLayer where
  "layer1 = \<lparr>layer_id = ''maze'', tiles = [[emptyTile]], visible = True\<rparr>"

definition map1 :: TileMap where
  "map1 = \<lparr>tm_width = 1, tm_height = 1, tileSize = 32, layers = [layer1]\<rparr>"

text \<open>The map that \<open>generate\<close> returns for a 3 by 3 maze.\<close>

definition maze3 :: TileMap where
  "maze3 = \<lparr>tm_width = 3, tm_height = 3, tileSize = 32,
            layers = [\<lparr>layer_id = ''maze'',
                       tiles = [[wallTile, wallTile, wallTile],
                                [wallTile, endTile, wallTile],
                                [wallTile, wallTile, wallTile]],
                       visible = True\<rparr>]\<rparr>"

text \<open>
  The player as \<open>MazeGame.tsx\<close> creates it when its scan finds no start tile: at the
  origin, 24 by 24.
\<close>

definition player0 :: Entity where
  "player0 = \<lparr>ent_id = ''player'', ent_x = 0, ent_y = 0, ent_width = 24, ent_height = 24,
              velocity = \<lparr>vx = 0, vy = 0\<rparr>, solid = True, active = True,
              tags = [''player''],
              playerData = Some \<lparr>health = 100, score = 0, speed = 150\<rparr>\<rparr>"

definition boxA :: Entity where
  "boxA = \<lparr>ent_id = ''a'', ent_x = 0, ent_y = 0, ent_width = 10, ent_height = 10,
           velocity = \<lparr>vx = 3, vy = 4\<rparr>, solid = True, active = True,
           tags = [], playerData = None\<rparr>"

definition boxB :: Entity where
  "boxB = \<lparr>ent_id = ''b'', ent_x = 5, ent_y = 5, ent_width = 10, ent_height = 10,
           velocity = \<lparr>vx = 0, vy = 0\<rparr>, solid = True, active = True,
           tags = [], playerData = None\<rparr>"


definition noKeys :: InputSystem where
  "noKeys = \<lparr>keys = Map.empty, previousKeys = Map.empty\<rparr>"

definition deadPlayer :: Entity where
  "deadPlayer = player0\<lparr>ent_x := 40, ent_y := 40,
                  playerData := Some \<lparr>health = 0, score = 0, speed = 150\<rparr>\<rparr>"

definition engine0 :: GameEngine where
  "engine0 = \<lparr>lastTime = 0, running = True, paused = False, accumulator = 0,
              inputSystem = noKeys, tileMap = Some maze3, entities = [deadPlayer],
              player = Some 0, state = initialState\<rparr>"

definition keysRight :: "string \<rightharpoonup> bool" where
  "keysRight = [''d'' \<mapsto> True]"

definition engine1 :: GameEngine where
  "engine1 = \<lparr>lastTime = 0, running = True, paused = False, accumulator = 0,
              inputSystem = noKeys, tileMap = Some maze3,
              entities = [player0\<lparr>ent_x := 36, ent_y := 36\<rparr>],
              player = Some 0, state = initialState\<rparr>"

definition engine2 :: GameEngine where
  "engine2 = engine1\<lparr>lastTime := 100, accumulator := 5\<rparr>"

definition engine3 :: GameEngine where
  "engine3 = engine1\<lparr>tileMap := None\<rparr>"

definition firstChoice :: "nat \<Rightarrow> nat" where
  "firstChoice k = 0"

definition state02 :: CarveState where
  "state02 = \<lparr>stack = [(1, 1)], visited = {(1, 1)},
              maze = \<lparr>tm_width = 0, tm_height = 2, tileSize = 32,
                       layers = [\<lparr>layer_id = ''maze'', tiles = [[], []], visible = True\<rparr>]\<rparr>,
              randomCalls = 0\<rparr>"

definition state53 :: CarveState where
  "state53 = \<lparr>stack = [(1, 1)], visited = {(1, 1)},
              maze = \<lparr>tm_width = 5, tm_height = 3, tileSize = 32,
                       layers = [\<lparr>layer_id = ''maze'',
                                  tiles = [[wallTile, wallTile, wallTile, wallTile, wallTile],
                                           [wallTile, startTile, wallTile, wallTile, wallTile],
                                           [wallTile, wallTile, wallTile, wallTile, wallTile]],
                                  visible = True\<rparr>]\<rparr>,
              randomCalls = 0\<rparr>"

definition state77 :: CarveState where
  "state77 = \<lparr>stack = [(1, 1)], visited = {(1, 1)},
              maze = \<lparr>tm_width = 7, tm_height = 7, tileSize = 32,
                       layers = [\<lparr>layer_id = ''maze'',
                                  tiles = [replicate 7 wallTile,
                                           [wallTile, startTile, wallTile, wallTile, wallTile,
                                            wallTile, wallTile],
                                           replicate 7 wallTile, replicate 7 wallTile,
                                           replicate 7 wallTile, replicate 7 wallTile,
                                           replicate 7 wallTile],
                                  visible = True\<rparr>]\<rparr>,
              randomCalls = 0\<rparr>"

definition maze12 :: TileMap where
  "maze12 = \<lparr>tm_width = 1, tm_height = 2, tileSize = 32,
             layers = [\<lparr>layer_id = ''maze'', tiles = [[wallTile], [wallTile]],
                        visible = True\<rparr>]\<rparr>"

definition maze53 :: TileMap where
  "maze53 = \<lparr>tm_width = 5, tm_height = 3, tileSize = 32,
             layers = [\<lparr>layer_id = ''maze'',
                        tiles = [[wallTile, wallTile, wallTile, wallTile, wallTile],
                                 [wallTile, startTile, pathTile, endTile, wallTile],
                                 [wallTile, wallTile, wallTile, wallTile, wallTile]],
                        visible = True\<rparr>]\<rparr>"

definition carved3 :: TileMap where
  "carved3 = \<lparr>tm_width = 3, tm_height = 3, tileSize = 32,
              layers = [\<lparr>layer_id = ''maze'',
                         tiles = [[wallTile, wallTile, wallTile],
                                  [wallTile, startTile, wallTile],
                                  [wallTile, wallTile, wallTile]],
                         visible = True\<rparr>]\<rparr>"

definition carved53 :: TileMap where
  "carved53 = \<lparr>tm_width = 5, tm_height = 3, tileSize = 32,
               layers = [\<lparr>layer_id = ''maze'',
                          tiles = [[wallTile, wallTile, wallTile, wallTile, wallTile],
                                   [wallTile, startTile, pathTile, pathTile, wallTile],
                                   [wallTile, wallTile, wallTile, wallTile, wallTile]],
                          visible = True\<rparr>]\<rparr>"

definition maze13 :: TileMap where
  "maze13 = \<lparr>tm_width = 1, tm_height = 3, tileSize = 32,
             layers = [\<lparr>layer_id = ''maze'', tiles = [[wallTile], [wallTile], [wallTile]],
                        visible = True\<rparr>]\<rparr>"





section \<open>Construction of the map and of the generator\<close>

text \<open>
  C9 (as the code has it). Neither constructor fails, whatever the sizes: a width,
  height or tile size that is zero or negative is stored as given, and the object is
  returned with no layer.
\<close>

theorem constructors_accept_any_size:
  "(\<exists>m. TileMap_new w h ts = Inr m \<and> tm_width m = w \<and> tm_height m = h \<and> tileSize m = ts
        \<and> layers m = [])
   \<and> (\<exists>g. MazeGenerator_new w h = Inr g \<and> mg_width g = w \<and> mg_height g = h)"
  by (simp add: TileMap_new_def MazeGenerator_new_def)

text \<open>
  C9 as stated asks for a construction error on a non-positive size. Both
  constructors return an object for such sizes.
\<close>

theorem constructors_nonpositive_counterexample:
  "TileMap_new (-1) 0 0 = Inr \<lparr>tm_width = -1, tm_height = 0, tileSize = 0, layers = []\<rparr>
   \<and> MazeGenerator_new 0 (-1) = Inr \<lparr>mg_width = 0, mg_height = -1\<rparr>"
  by (simp add: TileMap_new_def MazeGenerator_new_def)


section \<open>createLayer\<close>

text \<open>
  C8 (as the code has it). \<open>createLayer\<close> never fails, whether the id is in use or
  not: it appends one layer with the given id after the existing layers, with
  \<open>height\<close> rows of \<open>width\<close> tiles, every tile of kind Empty and not solid.
\<close>

theorem createLayer_always_appends:
  "\<exists>m' l. createLayer m lid = Inr (m', l) \<and> layers m' = layers m @ [l] \<and> layer_id l = lid
      \<and> length (tiles l) = nat (tm_height m)
      \<and> (\<forall>row \<in> set (tiles l). length row = nat (tm_width m)
            \<and> (\<forall>t \<in> set row. tile_type t = EMPTY \<and> \<not> tile_solid t))"
  by (auto simp: createLayer_def Let_def emptyTile_def)

theorem createLayer_always_appends_witness:
  "\<exists>m' l. createLayer map1 ''maze'' = Inr (m', l) \<and> layers m' = [layer1, l]
      \<and> layer_id l = ''maze'' \<and> length (tiles l) = 1"
  using createLayer_always_appends [of map1 "''maze''"]
  by (auto simp: map1_def)

text \<open>
  C8 as stated asks for a failure when the id is already used. On a map whose only
  layer is called \<open>maze\<close>, \<open>createLayer\<close> with the id \<open>maze\<close> returns a map with two
  layers of that id.
\<close>

theorem createLayer_duplicate_counterexample:
  "createLayer map1 ''maze'' = Inr (map1\<lparr>layers := [layer1, layer1]\<rparr>, layer1)
   \<and> map layer_id (layers (map1\<lparr>layers := [layer1, layer1]\<rparr>)) = [''maze'', ''maze'']"
  by code_simp


section \<open>Collision between two entities\<close>

lemma onCollision_geometry:
  "ent_x (onCollision a b) = ent_x a \<and> ent_y (onCollision a b) = ent_y a
   \<and> velocity (onCollision a b) = velocity a \<and> ent_width (onCollision a b) = ent_width a
   \<and> ent_height (onCollision a b) = ent_height a \<and> solid (onCollision a b) = solid a
   \<and> active (onCollision a b) = active a \<and> tags (onCollision a b) = tags a"
  by (simp add: onCollision_def split: option.splits)

text \<open>
  C3 (as the code has it). The test is \<open>overlapX < overlapY\<close>, so on a tie the
  \<open>else\<close> branch runs: for two solid overlapping entities whose two overlap depths
  are equal, \<open>resolveCollision\<close> resolves vertically. It puts \<open>a\<close> above \<open>b\<close> when
  \<open>a.y < b.y\<close> and below it otherwise, zeroes \<open>a.velocity.y\<close>, and leaves \<open>a.x\<close> and
  \<open>a.velocity.x\<close> as they were.
\<close>

theorem resolveCollision_tie_vertical:
  assumes "checkCollision a b"
    and "min (ent_x a + ent_width a - ent_x b) (ent_x b + ent_width b - ent_x a)
         = min (ent_y a + ent_height a - ent_y b) (ent_y b + ent_height b - ent_y a)"
  shows "ent_y (fst (resolveCollision a b))
           = (if ent_y a < ent_y b then ent_y b - ent_height a else ent_y b + ent_height b)
         \<and> vy (velocity (fst (resolveCollision a b))) = 0
         \<and> ent_x (fst (resolveCollision a b)) = ent_x a
         \<and> vx (velocity (fst (resolveCollision a b))) = vx (velocity a)"
proof -
  define ox where "ox = min (ent_x a + ent_width a - ent_x b) (ent_x b + ent_width b - ent_x a)"
  define oy where "oy = min (ent_y a + ent_height a - ent_y b) (ent_y b + ent_height b - ent_y a)"
  have tie: "\<not> ox < oy" using assms(2) by (simp add: ox_def oy_def)
  have "resolveCollision a b =
          (let e1 = a\<lparr>ent_y := (if ent_y a < ent_y b then ent_y b - ent_height a
                                    else ent_y b + ent_height b),
                         velocity := (velocity a)\<lparr>vy := 0\<rparr>\<rparr>;
               e1' = onCollision e1 b
           in (e1', onCollision b e1'))"
    unfolding resolveCollision_def Let_def
    using assms(1) tie [unfolded ox_def oy_def] by (simp only: if_False if_True simp_thms)
  then show ?thesis by (simp add: Let_def onCollision_geometry)
qed

theorem resolveCollision_tie_vertical_witness:
  "checkCollision boxA boxB
   \<and> min (ent_x boxA + ent_width boxA - ent_x boxB) (ent_x boxB + ent_width boxB - ent_x boxA)
     = min (ent_y boxA + ent_height boxA - ent_y boxB) (ent_y boxB + ent_height boxB - ent_y boxA)
   \<and> ent_y (fst (resolveCollision boxA boxB)) = -5
   \<and> vy (velocity (fst (resolveCollision boxA boxB))) = 0
   \<and> ent_x (fst (resolveCollision boxA boxB)) = 0
   \<and> vx (velocity (fst (resolveCollision boxA boxB))) = 3"
proof -
  have c: "checkCollision boxA boxB" by (simp add: checkCollision_def boxA_def boxB_def)
  have t: "min (ent_x boxA + ent_width boxA - ent_x boxB) (ent_x boxB + ent_width boxB - ent_x boxA)
     = min (ent_y boxA + ent_height boxA - ent_y boxB) (ent_y boxB + ent_height boxB - ent_y boxA)"
    by (simp add: boxA_def boxB_def)
  show ?thesis
    using c t resolveCollision_tie_vertical [OF c t] by (simp add: boxA_def boxB_def)
qed

text \<open>
  C3 as stated has the tie resolved horizontally. For the 10 by 10 boxes at \<open>(0, 0)\<close>
  and \<open>(5, 5)\<close> both depths are 5; \<open>a.x\<close> and \<open>a.velocity.x\<close> are kept, \<open>a.y\<close> and
  \<open>a.velocity.y\<close> change.
\<close>

theorem resolveCollision_tie_counterexample:
  "checkCollision boxA boxB
   \<and> min (ent_x boxA + ent_width boxA - ent_x boxB) (ent_x boxB + ent_width boxB - ent_x boxA)
     = min (ent_y boxA + ent_height boxA - ent_y boxB) (ent_y boxB + ent_height boxB - ent_y boxA)
   \<and> ent_x (fst (resolveCollision boxA boxB)) = ent_x boxA
   \<and> vx (velocity (fst (resolveCollision boxA boxB))) = 3
   \<and> ent_y (fst (resolveCollision boxA boxB)) \<noteq> ent_y boxA
   \<and> vy (velocity (fst (resolveCollision boxA boxB))) \<noteq> vy (velocity boxA)"
  by (simp add: resolveCollision_def checkCollision_def Let_def onCollision_def boxA_def boxB_def)


section \<open>Collision between an entity and the map\<close>










section \<open>Win and lose\<close>

lemma state_restart: "state (restart g) = initialState"
  by (simp add: restart_def Let_def split: option.splits)

text \<open>
  C2 (as the code has it). The lose test is a statement of its own after the win
  test, not an \<open>else\<close>: when the player's cell on layer 0 is the End tile and its health
  is at most 0, the step ends with \<open>won = false\<close>. \<open>gameOver\<close> is true at the end unless
  the restart key is pressed in that step, in which case \<open>restart\<close> has reset both.
\<close>

theorem checkGameState_lose_overrides_win:
  assumes "thePlayer g = Some p" and "tileMap g = Some m" and "tileSize m \<noteq> 0"
    and "getTile m 0 \<lfloor>ent_x p / tileSize m\<rfloor> \<lfloor>ent_y p / tileSize m\<rfloor> = Some t"
    and "tile_type t = END"
    and "playerDead p"
  shows "\<not> won (state (checkGameState g))
         \<and> gameOver (state (checkGameState g)) = (\<not> isKeyPressed (inputSystem g) ''space'')"
  using assms
  by (simp add: checkGameState_def Let_def state_restart initialState_def)

theorem checkGameState_lose_overrides_win_witness:
  "thePlayer engine0 = Some deadPlayer \<and> tileMap engine0 = Some maze3 \<and> tileSize maze3 \<noteq> 0
   \<and> getTile maze3 0 \<lfloor>ent_x deadPlayer / tileSize maze3\<rfloor> \<lfloor>ent_y deadPlayer / tileSize maze3\<rfloor>
       = Some endTile
   \<and> tile_type endTile = END \<and> playerDead deadPlayer
   \<and> \<not> won (state (checkGameState engine0))
   \<and> gameOver (state (checkGameState engine0))"
proof -
  have a: "thePlayer engine0 = Some deadPlayer" by (simp add: thePlayer_def engine0_def)
  have b: "tileMap engine0 = Some maze3" by (simp add: engine0_def)
  have c: "tileSize maze3 \<noteq> 0" by (simp add: maze3_def)
  have d: "getTile maze3 0 \<lfloor>ent_x deadPlayer / tileSize maze3\<rfloor>
             \<lfloor>ent_y deadPlayer / tileSize maze3\<rfloor> = Some endTile"
    by code_simp
  have e: "tile_type endTile = END" by (simp add: endTile_def)
  have f: "playerDead deadPlayer" by (simp add: playerDead_def deadPlayer_def player0_def)
  have k: "\<not> isKeyPressed (inputSystem engine0) ''space''"
    by (simp add: isKeyPressed_def engine0_def noKeys_def)
  show ?thesis
    using a b c d e f k checkGameState_lose_overrides_win [OF a b c d e f] by simp
qed

text \<open>
  C2 as stated ends the step with \<open>won = true\<close>. With the player on the End tile of the
  3 by 3 maze and health 0, and no key down, the step ends with \<open>gameOver = true\<close> and
  \<open>won = false\<close>.
\<close>

theorem checkGameState_win_and_lose_counterexample:
  "map_option tile_type
     (getTile maze3 0 \<lfloor>ent_x deadPlayer / tileSize maze3\<rfloor> \<lfloor>ent_y deadPlayer / tileSize maze3\<rfloor>)
     = Some END
   \<and> playerDead deadPlayer
   \<and> gameOver (state (checkGameState engine0)) = True
   \<and> won (state (checkGameState engine0)) = False"
  by code_simp


section \<open>The fixed time step\<close>

lemma getDirection_directionKeys: "getDirection (directionKeys d) = d"
  by (cases d) (simp_all add: getDirection_def directionKeys_def isKeyDown_def Let_def)

lemma isKeyPressed_directionKeys: "\<not> isKeyPressed (directionKeys d) k"
  by (simp add: isKeyPressed_def directionKeys_def Let_def)

lemma sameWorld_refl: "sameWorld g g"
  by (simp add: sameWorld_def)

lemma sameWorld_sym: "sameWorld g g' \<Longrightarrow> sameWorld g' g"
  by (simp add: sameWorld_def)

lemma sameWorld_trans: "sameWorld g g' \<Longrightarrow> sameWorld g' g'' \<Longrightarrow> sameWorld g g''"
  by (simp add: sameWorld_def)

lemma sameWorld_restart: "sameWorld g g' \<Longrightarrow> sameWorld (restart g) (restart g')"
  by (simp add: sameWorld_def restart_def Let_def split: option.splits)

lemma sameWorld_checkGameState:
  assumes "sameWorld g g'"
    and "isKeyPressed (inputSystem g) ''space'' = isKeyPressed (inputSystem g') ''space''"
  shows "sameWorld (checkGameState g) (checkGameState g')"
proof -
  define S where "S tm st p =
      (let st1 =
             (case tm of
                None \<Rightarrow> st
              | Some m \<Rightarrow>
                  (let playerTileX = \<lfloor>ent_x p / tileSize m\<rfloor>;
                       playerTileY = \<lfloor>ent_y p / tileSize m\<rfloor>
                   in case getTile m 0 playerTileX playerTileY of
                        None \<Rightarrow> st
                      | Some tile \<Rightarrow>
                          if tile_type tile = END
                          then st\<lparr>gameOver := True, won := True\<rparr>
                          else st))
       in (if playerDead p then st1\<lparr>gameOver := True, won := False\<rparr> else st1))"
    for tm :: "TileMap option" and st :: GameState and p :: Entity
  have c: "checkGameState h =
             (case thePlayer h of
                None \<Rightarrow> h
              | Some p \<Rightarrow>
                  if gameOver (S (tileMap h) (state h) p) \<and> isKeyPressed (inputSystem h) ''space''
                  then restart (h\<lparr>state := S (tileMap h) (state h) p\<rparr>)
                  else h\<lparr>state := S (tileMap h) (state h) p\<rparr>)" for h
    by (cases "thePlayer h") (simp_all add: checkGameState_def S_def Let_def)
  have eqs: "tileMap g' = tileMap g" "entities g' = entities g" "player g' = player g"
    "state g' = state g"
    using assms(1) by (simp_all add: sameWorld_def)
  have tp: "thePlayer g' = thePlayer g"
    by (simp add: thePlayer_def eqs split: option.splits)
  show ?thesis
  proof (cases "thePlayer g")
    case None
    then show ?thesis using assms(1) by (simp add: c tp)
  next
    case (Some p)
    have w: "sameWorld (g\<lparr>state := S (tileMap g) (state g) p\<rparr>)
               (g'\<lparr>state := S (tileMap g) (state g) p\<rparr>)"
      using assms(1) by (simp add: sameWorld_def)
    show ?thesis
      using w sameWorld_restart [OF w] assms(2) Some by (simp add: c tp eqs)
  qed
qed

lemma sameWorld_update:
  assumes "sameWorld g g'"
    and "getDirection (inputSystem g) = getDirection (inputSystem g')"
    and "isKeyPressed (inputSystem g) ''space'' = isKeyPressed (inputSystem g') ''space''"
  shows "sameWorld (update ar dt g) (update ar dt g')"
proof -
  define pre where "pre h =
     (let g1 = (case player h of
                  None \<Rightarrow> h
                | Some i \<Rightarrow>
                    if i < length (entities h)
                    then h\<lparr>entities :=
                           (entities h)[i := move (getDirection (inputSystem h)) (entities h ! i)]\<rparr>
                    else h);
          g2 = g1\<lparr>entities :=
                   map (\<lambda>e. if active e then entity_update ar dt e else e) (entities g1)\<rparr>;
          g3 = (case tileMap g2 of
                  None \<Rightarrow> g2
                | Some m \<Rightarrow>
                    g2\<lparr>entities :=
                         map (\<lambda>e. if active e \<and> solid e then resolveTileCollision e m else e)
                           (entities g2)\<rparr>)
      in g3\<lparr>entities := resolvePairs (entities g3)\<rparr>)" for h :: GameEngine
  have u: "update ar dt h = checkGameState (pre h)" for h
    by (simp add: update_def pre_def Let_def)
  have i: "inputSystem (pre h) = inputSystem h" for h
    by (simp add: pre_def Let_def split: option.splits)
  define E where "E pl es tm d =
     (let es1 = (case pl of
                   None \<Rightarrow> es
                 | Some i \<Rightarrow> if i < length es then es[i := move d (es ! i)] else es);
          es2 = map (\<lambda>e. if active e then entity_update ar dt e else e) es1;
          es3 = (case tm of
                   None \<Rightarrow> es2
                 | Some m \<Rightarrow>
                     map (\<lambda>e. if active e \<and> solid e then resolveTileCollision e m else e) es2)
      in resolvePairs es3)"
    for pl :: "nat option" and es :: "Entity list" and tm :: "TileMap option" and d :: Direction
  have p: "pre h = h\<lparr>entities :=
                       E (player h) (entities h) (tileMap h) (getDirection (inputSystem h))\<rparr>"
    for h
    by (simp add: pre_def E_def Let_def split: option.splits)
  have w: "sameWorld (pre g) (pre g')"
    unfolding p using assms(1,2) by (simp add: sameWorld_def)
  show ?thesis
    unfolding u by (rule sameWorld_checkGameState [OF w]) (simp add: i assms(3))
qed

lemma inputSystem_restart: "inputSystem (restart g) = inputSystem g"
  by (simp add: restart_def Let_def split: option.splits)

lemma inputSystem_checkGameState: "inputSystem (checkGameState g) = inputSystem g"
  by (simp add: checkGameState_def Let_def inputSystem_restart split: option.splits)

lemma inputSystem_update: "inputSystem (update ar dt g) = inputSystem g"
  by (simp add: update_def Let_def inputSystem_checkGameState split: option.splits)

lemma accumulator_restart: "accumulator (restart g) = accumulator g"
  by (simp add: restart_def Let_def split: option.splits)

lemma accumulator_checkGameState: "accumulator (checkGameState g) = accumulator g"
  by (simp add: checkGameState_def Let_def accumulator_restart split: option.splits)

lemma accumulator_update: "accumulator (update ar dt g) = accumulator g"
  by (simp add: update_def Let_def accumulator_checkGameState split: option.splits)

lemma sameWorld_physicsStep:
  "sameWorld g g' \<Longrightarrow> sameWorld (physicsStep ar d g) (physicsStep ar d g')"
  unfolding physicsStep_def
  by (rule sameWorld_update) (simp_all add: sameWorld_def)

lemma sameWorld_fold_physicsStep:
  "sameWorld g g' \<Longrightarrow> sameWorld (fold (physicsStep ar) ds g) (fold (physicsStep ar) ds g')"
  by (induction ds arbitrary: g g') (simp_all add: sameWorld_physicsStep)

text \<open>
  When the count of the steps from an accumulator value exists, the loop has run that
  many times and ended.
\<close>

lemma stepCount_0:
  assumes "stepCount ar a = Some 0"
  shows "\<not> a \<ge> frameTime ar"
proof
  assume "a \<ge> frameTime ar"
  then have "stepCount ar a
               = Option.bind (stepCount ar (fsub ar a (frameTime ar))) (\<lambda>k. Some (Suc k))"
    by (subst stepCount.simps) simp
  then show False
    using assms by (cases "stepCount ar (fsub ar a (frameTime ar))") simp_all
qed

lemma stepCount_Suc:
  assumes "stepCount ar a = Some (Suc k)"
  shows "a \<ge> frameTime ar" and "stepCount ar (fsub ar a (frameTime ar)) = Some k"
proof -
  show ge: "a \<ge> frameTime ar"
  proof (rule ccontr)
    assume "\<not> a \<ge> frameTime ar"
    then have "stepCount ar a = Some 0" by (subst stepCount.simps) simp
    then show False using assms by simp
  qed
  have "stepCount ar a
          = Option.bind (stepCount ar (fsub ar a (frameTime ar))) (\<lambda>k. Some (Suc k))"
    using ge by (subst stepCount.simps) simp
  then show "stepCount ar (fsub ar a (frameTime ar)) = Some k"
    using assms by (cases "stepCount ar (fsub ar a (frameTime ar))") simp_all
qed

lemma runSteps_stepCount:
  assumes "stepCount ar (accumulator g) = Some k"
    and "\<not> isKeyPressed (inputSystem g) ''space''"
  shows "\<exists>r. runSteps ar g = Some r
           \<and> sameWorld r
               (fold (physicsStep ar) (replicate k (getDirection (inputSystem g))) g)"
  using assms
proof (induction k arbitrary: g)
  case 0
  have "\<not> accumulator g \<ge> frameTime ar" using "0.prems"(1) by (rule stepCount_0)
  then have "runSteps ar g = Some g" by (subst runSteps.simps) simp
  then show ?case by (simp add: sameWorld_refl)
next
  case (Suc k)
  define g' where "g' = (update ar (frameTime ar) g)
                     \<lparr>accumulator :=
                        fsub ar (accumulator (update ar (frameTime ar) g)) (frameTime ar)\<rparr>"
  define d where "d = getDirection (inputSystem g)"
  note sc = stepCount_Suc [OF Suc.prems(1)]
  have in': "inputSystem g' = inputSystem g" by (simp add: g'_def inputSystem_update)
  have acc': "accumulator g' = fsub ar (accumulator g) (frameTime ar)"
    by (simp add: g'_def accumulator_update)
  have c': "stepCount ar (accumulator g') = Some k" unfolding acc' by (rule sc(2))
  have np': "\<not> isKeyPressed (inputSystem g') ''space''" unfolding in' by (rule Suc.prems(2))
  obtain r where r: "runSteps ar g' = Some r"
    and w: "sameWorld r (fold (physicsStep ar) (replicate k d) g')"
    using Suc.IH [OF c' np'] unfolding in' d_def by blast
  have "sameWorld (update ar (frameTime ar) g) (physicsStep ar d g)"
    unfolding physicsStep_def
    by (rule sameWorld_update)
       (simp_all add: sameWorld_def getDirection_directionKeys d_def
          isKeyPressed_directionKeys Suc.prems(2))
  then have "sameWorld g' (physicsStep ar d g)" by (simp add: sameWorld_def g'_def)
  then have "sameWorld (fold (physicsStep ar) (replicate k d) g')
               (fold (physicsStep ar) (replicate k d) (physicsStep ar d g))"
    by (rule sameWorld_fold_physicsStep)
  with w have "sameWorld r (fold (physicsStep ar) (replicate k d) (physicsStep ar d g))"
    by (rule sameWorld_trans)
  moreover have "runSteps ar g = runSteps ar g'"
    using sc(1) by (subst runSteps.simps) (simp add: g'_def)
  ultimately show ?case using r by (simp add: d_def)
qed

lemma runFrame_frameDirections:
  assumes "frameDirections ar f g = Some ds"
  shows "\<exists>r. runFrame ar f g = Some r \<and> sameWorld r (fold (physicsStep ar) ds g)"
proof (cases "\<not> running g \<or> paused g")
  case True
  then have "ds = []" using assms by (simp add: frameDirections_def)
  then show ?thesis
    using True by (auto simp: runFrame_def gameLoop_def sameWorld_def Let_def)
next
  case False
  define g1 where "g1 = g\<lparr>lastTime := snd f,
                          inputSystem := (inputSystem g)\<lparr>keys := fst f, previousKeys := fst f\<rparr>,
                          accumulator := fadd ar (accumulator g) (fsub ar (snd f) (lastTime g))\<rparr>"
  have rf: "runFrame ar f g = runSteps ar g1"
    using False by (simp add: runFrame_def gameLoop_def Let_def g1_def input_update_def)
  have np: "\<not> isKeyPressed (inputSystem g1) ''space''"
    by (simp add: g1_def isKeyPressed_def)
  have gd: "getDirection (inputSystem g1) = getDirection \<lparr>keys = fst f, previousKeys = fst f\<rparr>"
    by (simp add: g1_def getDirection_def isKeyDown_def)
  obtain k where k: "stepCount ar (accumulator g1) = Some k"
    and ds: "ds = replicate k (getDirection (inputSystem g1))"
    using assms False unfolding gd by (auto simp: frameDirections_def g1_def)
  obtain r where r: "runSteps ar g1 = Some r"
    and w: "sameWorld r (fold (physicsStep ar) ds g1)"
    using runSteps_stepCount [OF k np] unfolding ds by blast
  have "sameWorld g1 g" by (simp add: sameWorld_def g1_def)
  then have "sameWorld (fold (physicsStep ar) ds g1) (fold (physicsStep ar) ds g)"
    by (rule sameWorld_fold_physicsStep)
  with w have "sameWorld r (fold (physicsStep ar) ds g)" by (rule sameWorld_trans)
  then show ?thesis using r unfolding rf by blast
qed

lemma runFrames_runDirections:
  assumes "runDirections ar fs g = Some ds"
  shows "\<exists>r. runFrames ar fs g = Some r \<and> sameWorld r (fold (physicsStep ar) ds g)"
  using assms
proof (induction fs arbitrary: g ds)
  case Nil
  then show ?case by (simp add: sameWorld_refl)
next
  case (Cons f fs)
  obtain d1 g' d2 where d1: "frameDirections ar f g = Some d1"
    and g': "runFrame ar f g = Some g'"
    and d2: "runDirections ar fs g' = Some d2" and ds: "ds = d1 @ d2"
    using Cons.prems by (auto split: option.splits)
  obtain r1 where "runFrame ar f g = Some r1"
    and "sameWorld r1 (fold (physicsStep ar) d1 g)"
    using runFrame_frameDirections [OF d1] by blast
  then have w1: "sameWorld g' (fold (physicsStep ar) d1 g)" using g' by simp
  obtain r where r: "runFrames ar fs g' = Some r"
    and w2: "sameWorld r (fold (physicsStep ar) d2 g')"
    using Cons.IH [OF d2] by blast
  have "sameWorld (fold (physicsStep ar) d2 g')
          (fold (physicsStep ar) d2 (fold (physicsStep ar) d1 g))"
    using w1 by (rule sameWorld_fold_physicsStep)
  with w2 have "sameWorld r (fold (physicsStep ar) d2 (fold (physicsStep ar) d1 g))"
    by (rule sameWorld_trans)
  then show ?case using r g' by (simp add: ds)
qed

text \<open>
  With the arithmetic of the engine, \<open>frameTime\<close> is the double 16.666666666666668,
  above \<open>50 / 3\<close>, and a step moves the player by 2.5. One frame of 50 ms runs two
  steps, and leaves 16.66666666666666 in the accumulator, below \<open>frameTime\<close>; three
  frames of 17 ms run three steps.
\<close>

lemma frameTime_ieee:
  "frameTime ieee = 4691249611844267 / 2 ^ 48 \<and> 50 / 3 < frameTime ieee
   \<and> fmul ieee 150 (fdiv ieee (frameTime ieee) 1000) = 5 / 2"
  by code_simp

lemma frame_of_50_ms:
  "runDirections ieee [(keysRight, 50)] engine3 = Some [RIGHT, RIGHT]
   \<and> map_option (\<lambda>g. map ent_x (entities g)) (runFrames ieee [(keysRight, 50)] engine3)
       = Some [41]
   \<and> runDirections ieee [(keysRight, 17), (keysRight, 34), (keysRight, 51)] engine3
       = Some [RIGHT, RIGHT, RIGHT]
   \<and> map_option (\<lambda>g. map ent_x (entities g))
        (runFrames ieee [(keysRight, 17), (keysRight, 34), (keysRight, 51)] engine3)
       = Some [87 / 2]"
  by code_simp

text \<open>
  C7. Two engines with the same map, the same entities, the same player and the same
  game state, whatever their accumulators, last timestamps and key tables, are run
  over two sequences of frames, with the same arithmetic, whatever it is. When the
  steps of the two runs read the same sequence of directions (so the runs make the
  same number of steps), both runs return, and they end with the same entities
  (positions and velocities included) and the same game state. Both are the result
  of applying the physics step to the directions in order: the accumulator decides
  how many steps run in a frame and nothing else.
\<close>

theorem fixed_timestep_determinism:
  assumes "tileMap g1 = tileMap g2" and "entities g1 = entities g2"
    and "player g1 = player g2" and "state g1 = state g2"
    and "case tileMap g1 of None \<Rightarrow> True | Some m \<Rightarrow> tileSize m \<noteq> 0"
    and "runDirections ar fs1 g1 = Some ds" and "runDirections ar fs2 g2 = Some ds"
  shows "\<exists>r1 r2. runFrames ar fs1 g1 = Some r1 \<and> runFrames ar fs2 g2 = Some r2
           \<and> entities r1 = entities r2 \<and> state r1 = state r2
           \<and> entities r1 = entities (fold (physicsStep ar) ds g1)
           \<and> state r1 = state (fold (physicsStep ar) ds g1)"
proof -
  have w: "sameWorld g1 g2" using assms(1-4) by (simp add: sameWorld_def)
  obtain r1 where r1: "runFrames ar fs1 g1 = Some r1"
    and a: "sameWorld r1 (fold (physicsStep ar) ds g1)"
    using runFrames_runDirections [OF assms(6)] by blast
  obtain r2 where r2: "runFrames ar fs2 g2 = Some r2"
    and c: "sameWorld r2 (fold (physicsStep ar) ds g2)"
    using runFrames_runDirections [OF assms(7)] by blast
  have b: "sameWorld (fold (physicsStep ar) ds g1) (fold (physicsStep ar) ds g2)"
    by (rule sameWorld_fold_physicsStep [OF w])
  have "sameWorld r1 r2"
    by (rule sameWorld_trans [OF a sameWorld_trans [OF b sameWorld_sym [OF c]]])
  then show ?thesis using a r1 r2 by (simp add: sameWorld_def)
qed

text \<open>
  The witness, with the arithmetic of the engine: one frame of 50 ms from a fresh
  engine, against two frames of 12 ms and 18 ms from an engine that starts with 5 ms
  in its accumulator. Both runs make two steps to the right; the player ends against
  the wall at \<open>x = 40\<close>.
\<close>

theorem fixed_timestep_determinism_witness:
  "tileMap engine1 = tileMap engine2 \<and> entities engine1 = entities engine2
   \<and> player engine1 = player engine2 \<and> state engine1 = state engine2
   \<and> runDirections ieee [(keysRight, 50)] engine1 = Some [RIGHT, RIGHT]
   \<and> runDirections ieee [(keysRight, 112), (keysRight, 130)] engine2 = Some [RIGHT, RIGHT]
   \<and> (\<exists>r1 r2. runFrames ieee [(keysRight, 50)] engine1 = Some r1
          \<and> runFrames ieee [(keysRight, 112), (keysRight, 130)] engine2 = Some r2
          \<and> entities r1 = entities r2 \<and> map ent_x (entities r1) = [40])"
proof -
  have a: "tileMap engine1 = tileMap engine2" "entities engine1 = entities engine2"
    "player engine1 = player engine2" "state engine1 = state engine2"
    by (simp_all add: engine2_def)
  have m: "case tileMap engine1 of None \<Rightarrow> True | Some m \<Rightarrow> tileSize m \<noteq> 0"
    by (simp add: engine1_def maze3_def)
  have d1: "runDirections ieee [(keysRight, 50)] engine1 = Some [RIGHT, RIGHT]"
    by code_simp
  have d2: "runDirections ieee [(keysRight, 112), (keysRight, 130)] engine2
              = Some [RIGHT, RIGHT]"
    by code_simp
  have x: "map_option (\<lambda>g. map ent_x (entities g)) (runFrames ieee [(keysRight, 50)] engine1)
             = Some [40]"
    by code_simp
  obtain r1 r2 where r: "runFrames ieee [(keysRight, 50)] engine1 = Some r1"
    "runFrames ieee [(keysRight, 112), (keysRight, 130)] engine2 = Some r2"
    "entities r1 = entities r2"
    using fixed_timestep_determinism [OF a m d1 d2] by blast
  have "map ent_x (entities r1) = [40]" using x unfolding r(1) by simp
  then show ?thesis
    using a d1 d2 r by simp
qed


section \<open>The grid of layer 0\<close>

lemma wfMap_setTile:
  assumes wf: "wfMap w h m"
  shows "wfMap w h (setTile m 0 x y t)"
proof (cases "x < 0 \<or> x \<ge> w \<or> y < 0 \<or> y \<ge> h")
  case True
  have "setTile m 0 x y t = m"
    using True wf by (auto simp: setTile_def wfMap_def)
  then show ?thesis using wf by simp
next
  case False
  define T where "T = tiles (layers m ! 0)"
  define T' where "T' = T[nat y := (T ! nat y)[nat x := t]]"
  have len: "length (layers m) = 1" "length T = nat h" "tm_width m = w" "tm_height m = h"
    and rows: "\<And>r. r \<in> set T \<Longrightarrow> length r = nat w"
    using wf by (simp_all add: wfMap_def T_def)
  have st: "setTile m 0 x y t = m\<lparr>layers := (layers m)[0 := (layers m ! 0)\<lparr>tiles := T'\<rparr>]\<rparr>"
    using False len by (simp add: setTile_def Let_def T_def T'_def)
  have l0: "layers (setTile m 0 x y t) ! 0 = (layers m ! 0)\<lparr>tiles := T'\<rparr>"
    unfolding st using len(1) by simp
  have rows': "length r = nat w" if "r \<in> set T'" for r
  proof -
    have sub: "set T' \<subseteq> insert ((T ! nat y)[nat x := t]) (set T)"
      unfolding T'_def by (rule set_update_subset_insert)
    have "nat y < length T" using False len(2) by linarith
    then have "T ! nat y \<in> set T" by (rule nth_mem)
    then have rl: "length ((T ! nat y)[nat x := t]) = nat w" using rows by simp
    from sub that have "r = (T ! nat y)[nat x := t] \<or> r \<in> set T" by blast
    then show ?thesis
    proof
      assume "r = (T ! nat y)[nat x := t]"
      then show ?thesis using rl by simp
    next
      assume "r \<in> set T"
      then show ?thesis by (rule rows)
    qed
  qed
  have "tm_width (setTile m 0 x y t) = w" "tm_height (setTile m 0 x y t) = h"
    "length (layers (setTile m 0 x y t)) = 1"
    unfolding st using len by simp_all
  moreover have "length (tiles (layers (setTile m 0 x y t) ! 0)) = nat h"
    unfolding l0 using len by (simp add: T'_def)
  moreover have "\<forall>r \<in> set (tiles (layers (setTile m 0 x y t) ! 0)). length r = nat w"
    unfolding l0 using rows' by simp
  ultimately show ?thesis unfolding wfMap_def by blast
qed

lemma grid_setTile:
  assumes "wfMap w h m"
  shows "grid (setTile m 0 x y t) c
           = (if c = (x, y) \<and> inBounds w h c then Some t else grid m c)"
proof (cases "x < 0 \<or> x \<ge> w \<or> y < 0 \<or> y \<ge> h")
  case True
  then show ?thesis
    using assms by (auto simp: setTile_def grid_def wfMap_def inBounds_def)
next
  case False
  have len: "length (layers m) = 1" "length (tiles (layers m ! 0)) = nat h"
    "tm_width m = w" "tm_height m = h"
    using assms by (simp_all add: wfMap_def)
  show ?thesis
  proof (cases "inBounds w h c")
    case ib: True
    have ny: "nat (snd c) = nat y \<longleftrightarrow> snd c = y" using ib False by (auto simp: inBounds_def)
    have nx: "nat (fst c) = nat x \<longleftrightarrow> fst c = x" using ib False by (auto simp: inBounds_def)
    have lr: "nat x < length (tiles (layers m ! 0) ! nat y)"
      using assms False by (simp add: wfMap_def)
    show ?thesis
      using False ib len lr ny nx
      by (cases c) (auto simp: setTile_def grid_def getTile_def Let_def inBounds_def
                      nth_list_update)
  next
    case ob: False
    then show ?thesis
      using len False
      by (auto simp: setTile_def grid_def getTile_def Let_def inBounds_def)
  qed
qed

lemma grid_outside: "wfMap w h m \<Longrightarrow> \<not> inBounds w h c \<Longrightarrow> grid m c = None"
  by (auto simp: grid_def getTile_def wfMap_def inBounds_def)

lemma grid_inside: "wfMap w h m \<Longrightarrow> inBounds w h c \<Longrightarrow> \<exists>t. grid m c = Some t"
  by (auto simp: grid_def getTile_def wfMap_def inBounds_def)

lemma wfMap_createLayer:
  "createLayer \<lparr>tm_width = w, tm_height = h, tileSize = ts, layers = []\<rparr> lid = Inr r
   \<Longrightarrow> wfMap w h (fst r)"
  by (auto simp: createLayer_def Let_def wfMap_def)

lemma fold_setTile_row:
  assumes "wfMap w h m"
  shows "wfMap w h (fold (\<lambda>x m'. setTile m' 0 x y t) xs m)
         \<and> (\<forall>c. grid (fold (\<lambda>x m'. setTile m' 0 x y t) xs m) c
                = (if fst c \<in> set xs \<and> snd c = y \<and> inBounds w h c then Some t else grid m c))"
  using assms
proof (induction xs arbitrary: m)
  case Nil
  then show ?case by simp
next
  case (Cons x xs)
  have wf': "wfMap w h (setTile m 0 x y t)" by (rule wfMap_setTile [OF Cons.prems])
  show ?case
    using Cons.IH [OF wf'] grid_setTile [OF Cons.prems, of x y t]
    by (auto simp: prod_eq_iff)
qed

lemma fold_setTile_rows:
  assumes "wfMap w h m"
  shows "wfMap w h (fold (\<lambda>y m. fold (\<lambda>x m'. setTile m' 0 x y t) xs m) ys m)
         \<and> (\<forall>c. grid (fold (\<lambda>y m. fold (\<lambda>x m'. setTile m' 0 x y t) xs m) ys m) c
                = (if fst c \<in> set xs \<and> snd c \<in> set ys \<and> inBounds w h c then Some t
                   else grid m c))"
  using assms
proof (induction ys arbitrary: m)
  case Nil
  then show ?case by simp
next
  case (Cons y ys)
  define m1 where "m1 = fold (\<lambda>x m'. setTile m' 0 x y t) xs m"
  have r: "wfMap w h m1"
    "\<forall>c. grid m1 c = (if fst c \<in> set xs \<and> snd c = y \<and> inBounds w h c then Some t else grid m c)"
    using fold_setTile_row [OF Cons.prems, of y t xs] by (simp_all add: m1_def)
  show ?case
    using Cons.IH [OF r(1)] r(2) by (auto simp: m1_def)
qed

lemma fillWalls_grid:
  assumes "wfMap w h m"
  shows "wfMap w h (fillWalls w h m)"
    and "grid (fillWalls w h m) c = (if inBounds w h c then Some wallTile else None)"
proof -
  note f = fold_setTile_rows [OF assms, of wallTile "[0..w - 1]" "[0..h - 1]"]
  show "wfMap w h (fillWalls w h m)"
    using f by (simp add: fillWalls_def)
  have "grid (fillWalls w h m) c
          = (if fst c \<in> set [0..w - 1] \<and> snd c \<in> set [0..h - 1] \<and> inBounds w h c
             then Some wallTile else grid m c)"
    using f unfolding fillWalls_def by blast
  then show "grid (fillWalls w h m) c = (if inBounds w h c then Some wallTile else None)"
    using grid_outside [OF assms, of c] by (auto simp: inBounds_def)
qed

text \<open>What \<open>carveInit\<close> returns when it returns a state.\<close>

lemma carveInit_Inr:
  assumes "carveInit w h = Inr s0"
  shows "0 \<le> w" and "2 \<le> h" and "stack s0 = [(1, 1)]" and "visited s0 = {(1, 1)}"
    and "randomCalls s0 = 0" and "wfMap w h (maze s0)"
    and "grid (maze s0) c
           = (if inBounds w h c then (if c = (1, 1) then Some startTile else Some wallTile)
              else None)"
proof -
  define m0 where "m0 = \<lparr>tm_width = w, tm_height = h, tileSize = 32, layers = []\<rparr>"
  obtain r where r: "createLayer m0 ''maze'' = Inr r"
    by (simp add: createLayer_def Let_def)
  have wf1: "wfMap w h (fst r)" using r wfMap_createLayer by (simp add: m0_def)
  define m1 where "m1 = fillWalls w h (fst r)"
  have wf2: "wfMap w h m1" unfolding m1_def by (rule fillWalls_grid(1) [OF wf1])
  have g2: "grid m1 c = (if inBounds w h c then Some wallTile else None)" for c
    unfolding m1_def by (rule fillWalls_grid(2) [OF wf1])
  have ci: "carveInit w h =
              (if h < 0 then Inl RangeError
               else if 0 < h \<and> w < 0 then Inl RangeError
               else if h < 2 then Inl TypeError
               else Inr \<lparr>stack = [(1, 1)], visited = {(1, 1)},
                         maze = setTile m1 0 1 1 startTile, randomCalls = 0\<rparr>)"
    using r by (simp add: carveInit_def TileMap_new_def m0_def m1_def Let_def)
  have dims: "\<not> h < 2 \<and> \<not> w < 0"
    using assms unfolding ci by (auto split: if_splits)
  then show "0 \<le> w" "2 \<le> h" by simp_all
  have hh: "\<not> h < 0" "\<not> (0 < h \<and> w < 0)" "\<not> h < 2" using dims by auto
  have "carveInit w h = Inr \<lparr>stack = [(1, 1)], visited = {(1, 1)},
                   maze = setTile m1 0 1 1 startTile, randomCalls = 0\<rparr>"
    unfolding ci using hh by (simp only: if_False)
  then have "Inr s0 = (Inr \<lparr>stack = [(1, 1)], visited = {(1, 1)},
                   maze = setTile m1 0 1 1 startTile, randomCalls = 0\<rparr> :: error + CarveState)"
    using assms by simp
  then have s0: "s0 = \<lparr>stack = [(1, 1)], visited = {(1, 1)},
                   maze = setTile m1 0 1 1 startTile, randomCalls = 0\<rparr>"
    by (simp only: sum.inject)
  show "stack s0 = [(1, 1)]" "visited s0 = {(1, 1)}" "randomCalls s0 = 0"
    by (simp_all add: s0)
  show "wfMap w h (maze s0)" by (simp add: s0 wfMap_setTile [OF wf2])
  show "grid (maze s0) c
           = (if inBounds w h c then (if c = (1, 1) then Some startTile else Some wallTile)
              else None)"
  proof -
    have "maze s0 = setTile m1 0 1 1 startTile" by (simp add: s0)
    then show ?thesis
      using grid_setTile [OF wf2, of 1 1 startTile c] g2 [of c] by simp
  qed
qed


section \<open>The two cases of a carving step\<close>

lemma neighbors_twoApart:
  assumes "n \<in> set (neighbors w h vis c)"
  shows "twoApart c n \<and> n \<in> interior w h \<and> n \<notin> vis"
proof -
  have mem: "n \<in> set (map (\<lambda>dir. (fst c + fst dir, snd c + snd dir)) directions)"
    using assms unfolding neighbors_def by simp
  have "n = (fst c, snd c - 2) \<or> n = (fst c + 2, snd c) \<or> n = (fst c, snd c + 2)
        \<or> n = (fst c - 2, snd c)"
    using mem by (simp add: directions_def)
  then have "twoApart c n" by (auto simp: twoApart_def)
  then show ?thesis using neighbors_interior [OF assms] by simp
qed

lemma carveStep_pop:
  "neighbors w h (visited s) (last (stack s)) = []
   \<Longrightarrow> carveStep w h rand s = s\<lparr>stack := butlast (stack s)\<rparr>"
  by (simp add: carveStep_def Let_def)

lemma carveStep_push:
  assumes "neighbors w h (visited s) (last (stack s)) \<noteq> []"
  shows "\<exists>n. twoApart (last (stack s)) n \<and> n \<in> interior w h \<and> n \<notin> visited s
           \<and> carveStep w h rand s =
               s\<lparr>stack := stack s @ [n], visited := insert n (visited s),
                 maze := setTile (setTile (maze s) 0 (fst (midpoint (last (stack s)) n))
                                    (snd (midpoint (last (stack s)) n)) pathTile)
                           0 (fst n) (snd n) pathTile,
                 randomCalls := Suc (randomCalls s)\<rparr>"
proof -
  define ns where "ns = neighbors w h (visited s) (last (stack s))"
  define n where "n = ns ! (rand (randomCalls s) mod length ns)"
  have "n \<in> set ns" using assms by (simp add: n_def ns_def)
  then have a: "twoApart (last (stack s)) n \<and> n \<in> interior w h \<and> n \<notin> visited s"
    unfolding ns_def by (rule neighbors_twoApart)
  have "carveStep w h rand s =
               s\<lparr>stack := stack s @ [n], visited := insert n (visited s),
                 maze := setTile (setTile (maze s) 0 (fst (midpoint (last (stack s)) n))
                                    (snd (midpoint (last (stack s)) n)) pathTile)
                           0 (fst n) (snd n) pathTile,
                 randomCalls := Suc (randomCalls s)\<rparr>"
    using assms by (simp add: carveStep_def Let_def midpoint_def n_def ns_def)
  with a show ?thesis by blast
qed

lemma carveLoop_invariant:
  assumes "P s0"
    and "\<And>s. P s \<Longrightarrow> stack s \<noteq> [] \<Longrightarrow> P (carveStep w h rand s)"
  shows "P (carveLoop w h rand s0) \<and> stack (carveLoop w h rand s0) = []"
  using assms
proof (induction w h rand s0 rule: carveLoop.induct)
  case (1 w h rand s)
  show ?case
  proof (cases "stack s = []")
    case True
    then show ?thesis using "1.prems"(1) by (simp add: carveLoop.simps [of w h rand s])
  next
    case False
    have "P (carveStep w h rand s)" using "1.prems"(1) False by (rule "1.prems"(2))
    then have "P (carveLoop w h rand (carveStep w h rand s))
               \<and> stack (carveLoop w h rand (carveStep w h rand s)) = []"
      using "1.prems"(2) by (rule "1.IH" [OF False])
    moreover have "carveLoop w h rand s = carveLoop w h rand (carveStep w h rand s)"
      using False by (subst carveLoop.simps) simp
    ultimately show ?thesis by simp
  qed
qed

subsection \<open>Geometry of a step\<close>

lemma twoApart_cases:
  assumes "twoApart (cx, cy) n"
  obtains "n = (cx, cy - 2)" "midpoint (cx, cy) n = (cx, cy - 1)"
  | "n = (cx + 2, cy)" "midpoint (cx, cy) n = (cx + 1, cy)"
  | "n = (cx, cy + 2)" "midpoint (cx, cy) n = (cx, cy + 1)"
  | "n = (cx - 2, cy)" "midpoint (cx, cy) n = (cx - 1, cy)"
proof -
  have "n = (cx, cy - 2) \<or> n = (cx + 2, cy) \<or> n = (cx, cy + 2) \<or> n = (cx - 2, cy)"
    using assms by (cases n) (auto simp: twoApart_def abs_if split: if_splits)
  moreover have "midpoint (cx, cy) (cx, cy - 2) = (cx, cy - 1)"
    "midpoint (cx, cy) (cx + 2, cy) = (cx + 1, cy)"
    "midpoint (cx, cy) (cx, cy + 2) = (cx, cy + 1)"
    "midpoint (cx, cy) (cx - 2, cy) = (cx - 1, cy)"
    by (simp_all add: midpoint_def)
  ultimately show ?thesis using that by blast
qed

lemma step_geometry:
  assumes "latticeCell c" and "twoApart c n"
  shows "betweenCell (midpoint c n)" and "latticeCell n"
    and "adjacent c (midpoint c n)" and "adjacent (midpoint c n) n"
    and "midpoint c n \<noteq> n" and "midpoint c n \<noteq> c" and "c \<noteq> n"
    and "\<not> latticeCell (midpoint c n)"
proof -
  obtain cx cy where c: "c = (cx, cy)" by (cases c)
  have o: "odd cx" "odd cy" using assms(1) by (simp_all add: c latticeCell_def)
  have "betweenCell (midpoint c n) \<and> latticeCell n \<and> adjacent c (midpoint c n)
        \<and> adjacent (midpoint c n) n \<and> midpoint c n \<noteq> n \<and> midpoint c n \<noteq> c \<and> c \<noteq> n
        \<and> \<not> latticeCell (midpoint c n)"
    using assms(2) unfolding c
    by (rule twoApart_cases)
       (simp_all add: o latticeCell_def betweenCell_def adjacent_def)
  then show "betweenCell (midpoint c n)" and "latticeCell n"
    and "adjacent c (midpoint c n)" and "adjacent (midpoint c n) n"
    and "midpoint c n \<noteq> n" and "midpoint c n \<noteq> c" and "c \<noteq> n"
    and "\<not> latticeCell (midpoint c n)"
    by simp_all
qed

lemma adjacent_cases:
  assumes "adjacent a (x, y)"
  shows "a = (x - 1, y) \<or> a = (x + 1, y) \<or> a = (x, y - 1) \<or> a = (x, y + 1)"
  using assms by (cases a) (auto simp: adjacent_def abs_if split: if_splits)

lemma between_neighbours:
  assumes "latticeCell c" and "twoApart c n" and "adjacent a (midpoint c n)"
    and "latticeCell a \<or> betweenCell a"
  shows "a = c \<or> a = n"
proof -
  obtain cx cy where c: "c = (cx, cy)" by (cases c)
  have o: "odd cx" "odd cy" using assms(1) by (simp_all add: c latticeCell_def)
  show ?thesis
    using assms(2) unfolding c
  proof (rule twoApart_cases)
    assume n: "n = (cx, cy - 2)" and m: "midpoint (cx, cy) n = (cx, cy - 1)"
    have adj: "adjacent a (cx, cy - 1)" using assms(3) unfolding c m .
    show "a = (cx, cy) \<or> a = n"
      using adjacent_cases [OF adj] assms(4) o
      by (auto simp: n latticeCell_def betweenCell_def)
  next
    assume n: "n = (cx + 2, cy)" and m: "midpoint (cx, cy) n = (cx + 1, cy)"
    have adj: "adjacent a (cx + 1, cy)" using assms(3) unfolding c m .
    show "a = (cx, cy) \<or> a = n"
      using adjacent_cases [OF adj] assms(4) o
      by (auto simp: n latticeCell_def betweenCell_def)
  next
    assume n: "n = (cx, cy + 2)" and m: "midpoint (cx, cy) n = (cx, cy + 1)"
    have adj: "adjacent a (cx, cy + 1)" using assms(3) unfolding c m .
    show "a = (cx, cy) \<or> a = n"
      using adjacent_cases [OF adj] assms(4) o
      by (auto simp: n latticeCell_def betweenCell_def)
  next
    assume n: "n = (cx - 2, cy)" and m: "midpoint (cx, cy) n = (cx - 1, cy)"
    have adj: "adjacent a (cx - 1, cy)" using assms(3) unfolding c m .
    show "a = (cx, cy) \<or> a = n"
      using adjacent_cases [OF adj] assms(4) o
      by (auto simp: n latticeCell_def betweenCell_def)
  qed
qed

lemma lattice_neighbours_between:
  assumes "latticeCell n" and "adjacent a n"
  shows "betweenCell a"
proof -
  obtain nx ny where n: "n = (nx, ny)" by (cases n)
  show ?thesis
    using adjacent_cases [of a nx ny] assms unfolding n
    by (auto simp: latticeCell_def betweenCell_def)
qed

lemma adjacent_sym: "adjacent a b = adjacent b a"
  by (auto simp: adjacent_def)

lemma midpoint_inBounds:
  assumes "twoApart c n" and "inBounds w h c" and "inBounds w h n"
  shows "inBounds w h (midpoint c n)"
proof -
  obtain cx cy where c: "c = (cx, cy)" by (cases c)
  show ?thesis
    using assms(1) unfolding c
    by (rule twoApart_cases) (use assms(2,3) in \<open>simp_all add: c inBounds_def\<close>)
qed

lemma interior_inBounds: "c \<in> interior w h \<Longrightarrow> inBounds w h c"
  by (auto simp: interior_def inBounds_def)

lemma interior_start_inBounds: "c \<in> interior w h \<Longrightarrow> inBounds w h (1, 1)"
  by (auto simp: interior_def inBounds_def)


section \<open>The invariant of the carving loop\<close>

lemma tiles_distinct:
  "wallTile \<noteq> startTile" "wallTile \<noteq> pathTile" "startTile \<noteq> pathTile"
  "startTile \<noteq> wallTile" "pathTile \<noteq> wallTile" "pathTile \<noteq> startTile"
  "endTile \<noteq> wallTile" "endTile \<noteq> startTile" "endTile \<noteq> pathTile"
  "wallTile \<noteq> endTile" "startTile \<noteq> endTile" "pathTile \<noteq> endTile"
  by (simp_all add: wallTile_def startTile_def pathTile_def endTile_def)

lemma latticeCell_start: "latticeCell (1, 1)"
  by (simp add: latticeCell_def)

lemma structInv_init:
  assumes "carveInit w h = Inr s0"
  shows "structInv w h s0"
proof -
  note i = carveInit_Inr [OF assms]
  have g: "grid (maze s0) c
           = (if inBounds w h c then (if c = (1, 1) then Some startTile else Some wallTile)
              else None)" for c
    by (rule i(7))
  show ?thesis
    unfolding structInv_def
    by (simp add: i(3,4,6) g tiles_distinct latticeCell_start)
qed

lemma structInvD:
  assumes "structInv w h s"
  shows "wfMap w h (maze s)" and "(1, 1) \<in> visited s"
    and "\<And>c. c \<in> visited s \<Longrightarrow> c = (1, 1) \<or> (c \<in> interior w h \<and> latticeCell c)"
    and "set (stack s) \<subseteq> visited s"
    and "\<And>c. inBounds w h c \<Longrightarrow>
             grid (maze s) c = Some wallTile \<or> grid (maze s) c = Some startTile
             \<or> grid (maze s) c = Some pathTile"
    and "\<And>c. grid (maze s) c = Some startTile \<longleftrightarrow> c = (1, 1) \<and> inBounds w h c"
    and "\<And>c. latticeCell c \<Longrightarrow>
             (grid (maze s) c = Some pathTile \<longleftrightarrow> c \<in> visited s \<and> c \<noteq> (1, 1))"
    and "\<And>c. grid (maze s) c = Some pathTile \<Longrightarrow> \<not> latticeCell c \<Longrightarrow> betweenCell c"
    and "\<And>c a. grid (maze s) c = Some pathTile \<Longrightarrow> \<not> latticeCell c \<Longrightarrow> latticeCell a
             \<Longrightarrow> adjacent a c \<Longrightarrow> a \<in> visited s"
  using assms unfolding structInv_def by blast+

lemma structInv_pop:
  assumes "structInv w h s"
  shows "structInv w h (s\<lparr>stack := butlast (stack s)\<rparr>)"
proof -
  have sub: "set (butlast (stack s)) \<subseteq> visited s"
    using structInvD(4) [OF assms] in_set_butlastD by fast
  have eqs: "maze (s\<lparr>stack := butlast (stack s)\<rparr>) = maze s"
    "visited (s\<lparr>stack := butlast (stack s)\<rparr>) = visited s"
    "stack (s\<lparr>stack := butlast (stack s)\<rparr>) = butlast (stack s)"
    by simp_all
  show ?thesis
    unfolding structInv_def eqs using assms [unfolded structInv_def] sub by blast
qed

lemma pushedD:
  assumes "pushed w h s s' n"
  shows "twoApart (last (stack s)) n" and "n \<in> interior w h" and "n \<notin> visited s"
    and "latticeCell (last (stack s))" and "last (stack s) \<in> visited s"
    and "inBounds w h (last (stack s))" and "inBounds w h n"
    and "inBounds w h (midpoint (last (stack s)) n)" and "inBounds w h (1, 1)"
    and "stack s' = stack s @ [n]"
    and "visited s' = insert n (visited s)"
    and "randomCalls s' = Suc (randomCalls s)"
    and "wfMap w h (maze s')"
    and "\<And>c. grid (maze s') c
              = (if c = n \<or> c = midpoint (last (stack s)) n then Some pathTile
                 else grid (maze s) c)"
  using assms unfolding pushed_def by blast+

lemma push_effect:
  assumes inv: "structInv w h s" and ne: "stack s \<noteq> []"
    and nb: "neighbors w h (visited s) (last (stack s)) \<noteq> []"
  shows "\<exists>n. pushed w h s (carveStep w h rand s) n"
proof -
  define cur where "cur = last (stack s)"
  obtain n where n: "twoApart cur n" "n \<in> interior w h" "n \<notin> visited s"
    and st: "carveStep w h rand s =
               s\<lparr>stack := stack s @ [n], visited := insert n (visited s),
                 maze := setTile (setTile (maze s) 0 (fst (midpoint cur n))
                                    (snd (midpoint cur n)) pathTile)
                           0 (fst n) (snd n) pathTile,
                 randomCalls := Suc (randomCalls s)\<rparr>"
    using carveStep_push [OF nb, of rand] unfolding cur_def by blast
  have wf: "wfMap w h (maze s)" by (rule structInvD(1) [OF inv])
  have "cur \<in> set (stack s)" unfolding cur_def using ne by (rule last_in_set)
  then have cv: "cur \<in> visited s" using structInvD(4) [OF inv] by blast
  have cs: "cur = (1, 1) \<or> (cur \<in> interior w h \<and> latticeCell cur)"
    using cv by (rule structInvD(3) [OF inv])
  have lc: "latticeCell cur" using cs latticeCell_start by blast
  have b1: "inBounds w h (1, 1)" using n(2) by (rule interior_start_inBounds)
  have bc: "inBounds w h cur" using cs b1 interior_inBounds [of cur w h] by blast
  have bn: "inBounds w h n" using n(2) by (rule interior_inBounds)
  have bm: "inBounds w h (midpoint cur n)" using n(1) bc bn by (rule midpoint_inBounds)
  define m1 where "m1 = setTile (maze s) 0 (fst (midpoint cur n)) (snd (midpoint cur n)) pathTile"
  have wf1: "wfMap w h m1" unfolding m1_def by (rule wfMap_setTile [OF wf])
  have g1: "grid m1 c = (if c = midpoint cur n then Some pathTile else grid (maze s) c)" for c
  proof -
    have "grid m1 c = (if c = (fst (midpoint cur n), snd (midpoint cur n)) \<and> inBounds w h c
                       then Some pathTile else grid (maze s) c)"
      unfolding m1_def by (rule grid_setTile [OF wf])
    then show ?thesis using bm by (cases "c = midpoint cur n") simp_all
  qed
  have mz: "maze (carveStep w h rand s) = setTile m1 0 (fst n) (snd n) pathTile"
    by (simp add: st m1_def)
  have wf2: "wfMap w h (maze (carveStep w h rand s))"
    unfolding mz by (rule wfMap_setTile [OF wf1])
  have g2: "grid (maze (carveStep w h rand s)) c
              = (if c = n \<or> c = midpoint cur n then Some pathTile else grid (maze s) c)" for c
  proof -
    have "grid (maze (carveStep w h rand s)) c
            = (if c = (fst n, snd n) \<and> inBounds w h c then Some pathTile else grid m1 c)"
      unfolding mz by (rule grid_setTile [OF wf1])
    then show ?thesis using bn g1 [of c] by (cases "c = n") simp_all
  qed
  have s1: "stack (carveStep w h rand s) = stack s @ [n]"
    "visited (carveStep w h rand s) = insert n (visited s)"
    "randomCalls (carveStep w h rand s) = Suc (randomCalls s)"
    by (simp_all add: st)
  have "pushed w h s (carveStep w h rand s) n"
    unfolding pushed_def cur_def [symmetric]
    using n lc cv bc bn bm b1 s1 wf2 g2 by blast
  then show ?thesis ..
qed

lemma pushed_structInv:
  assumes inv: "structInv w h s" and pu: "pushed w h s s' n"
  shows "structInv w h s'"
proof -
  define cur where "cur = last (stack s)"
  note p = pushedD [OF pu, folded cur_def]
  note i = structInvD [OF inv]
  note geo = step_geometry [OF p(4) p(1)]
  have g: "grid (maze s') c
              = (if c = n \<or> c = midpoint cur n then Some pathTile else grid (maze s) c)" for c
    by (rule p(14))
  have n1: "n \<noteq> (1, 1)" using p(3) i(2) by blast
  have m1: "midpoint cur n \<noteq> (1, 1)" using geo(8) latticeCell_start by metis
  have a: "(1, 1) \<in> visited s'" using i(2) unfolding p(11) by blast
  have b: "\<forall>c \<in> visited s'. c = (1, 1) \<or> (c \<in> interior w h \<and> latticeCell c)"
    using i(3) p(2) geo(2) unfolding p(11) by blast
  have c: "set (stack s') \<subseteq> visited s'"
    using i(4) unfolding p(10) p(11) by auto
  have d: "\<forall>c. inBounds w h c \<longrightarrow>
             grid (maze s') c = Some wallTile \<or> grid (maze s') c = Some startTile
             \<or> grid (maze s') c = Some pathTile"
  proof (intro allI impI)
    fix c
    assume "inBounds w h c"
    then show "grid (maze s') c = Some wallTile \<or> grid (maze s') c = Some startTile
             \<or> grid (maze s') c = Some pathTile"
      using i(5) [of c] unfolding g by (cases "c = n \<or> c = midpoint cur n") simp_all
  qed
  have e: "\<forall>c. grid (maze s') c = Some startTile \<longleftrightarrow> c = (1, 1) \<and> inBounds w h c"
  proof
    fix c
    show "grid (maze s') c = Some startTile \<longleftrightarrow> c = (1, 1) \<and> inBounds w h c"
    proof (cases "c = n \<or> c = midpoint cur n")
      case True
      then have "grid (maze s') c = Some pathTile" unfolding g by simp
      moreover have "c \<noteq> (1, 1)" using True n1 m1 by auto
      ultimately show ?thesis by (simp add: tiles_distinct)
    next
      case False
      then have "grid (maze s') c = grid (maze s) c" unfolding g by simp
      then show ?thesis using i(6) [of c] by simp
    qed
  qed
  have f: "\<forall>c. latticeCell c \<longrightarrow>
             (grid (maze s') c = Some pathTile \<longleftrightarrow> c \<in> visited s' \<and> c \<noteq> (1, 1))"
  proof (intro allI impI)
    fix c
    assume l: "latticeCell c"
    have cm: "c \<noteq> midpoint cur n" using l geo(8) by blast
    show "grid (maze s') c = Some pathTile \<longleftrightarrow> c \<in> visited s' \<and> c \<noteq> (1, 1)"
    proof (cases "c = n")
      case True
      then show ?thesis using n1 unfolding g p(11) by simp
    next
      case False
      then have "grid (maze s') c = grid (maze s) c" using cm unfolding g by simp
      then show ?thesis using i(7) [OF l] False unfolding p(11) by simp
    qed
  qed
  have k: "\<forall>c. grid (maze s') c = Some pathTile \<and> \<not> latticeCell c \<longrightarrow>
             betweenCell c \<and> (\<forall>a. latticeCell a \<and> adjacent a c \<longrightarrow> a \<in> visited s')"
  proof (intro allI impI)
    fix c
    assume pc: "grid (maze s') c = Some pathTile \<and> \<not> latticeCell c"
    then have cn: "c \<noteq> n" using geo(2) by blast
    show "betweenCell c \<and> (\<forall>a. latticeCell a \<and> adjacent a c \<longrightarrow> a \<in> visited s')"
    proof (cases "c = midpoint cur n")
      case True
      have "a \<in> visited s'" if "latticeCell a \<and> adjacent a c" for a
      proof -
        have "a = cur \<or> a = n"
          using between_neighbours [OF p(4) p(1), of a] that True by blast
        then show ?thesis using p(5) unfolding p(11) by blast
      qed
      then show ?thesis using geo(1) True by blast
    next
      case False
      then have "grid (maze s) c = Some pathTile" using pc cn unfolding g by simp
      then have "betweenCell c" "\<And>a. latticeCell a \<Longrightarrow> adjacent a c \<Longrightarrow> a \<in> visited s"
        using i(8) [of c] i(9) [of c] pc by blast+
      then show ?thesis unfolding p(11) by blast
    qed
  qed
  show ?thesis
    unfolding structInv_def using p(13) a b c d e f k by blast
qed

lemma structInv_step:
  assumes inv: "structInv w h s" and ne: "stack s \<noteq> []"
  shows "structInv w h (carveStep w h rand s)"
proof (cases "neighbors w h (visited s) (last (stack s)) = []")
  case True
  show ?thesis unfolding carveStep_pop [OF True] by (rule structInv_pop [OF inv])
next
  case False
  obtain n where "pushed w h s (carveStep w h rand s) n"
    using push_effect [OF inv ne False] by blast
  then show ?thesis by (rule pushed_structInv [OF inv])
qed


section \<open>Paths and cycles through open cells\<close>

lemma cycle_neighbours:
  assumes cy: "isCycle m p" and c: "c \<in> set p"
  shows "\<exists>a b. a \<in> set p \<and> b \<in> set p \<and> a \<noteq> b \<and> adjacent a c \<and> adjacent b c"
proof -
  define k where "k = length p"
  have k3: "3 \<le> k" and di: "distinct p"
    and adj: "\<And>i. i < k \<Longrightarrow> adjacent (p ! i) (p ! (Suc i mod k))"
    using cy unfolding isCycle_def k_def by blast+
  obtain i where i: "i < k" "p ! i = c"
    using c unfolding k_def by (auto simp: in_set_conv_nth)
  define j where "j = (if i = 0 then k - 1 else i - 1)"
  define l where "l = Suc i mod k"
  have jk: "j < k" using i(1) k3 unfolding j_def by auto
  have lk: "l < k" using k3 unfolding l_def by simp
  have sj: "Suc j mod k = i"
  proof (cases "i = 0")
    case True
    then have "Suc j = k" using k3 unfolding j_def by simp
    then show ?thesis using True by simp
  next
    case False
    then have "Suc j = i" unfolding j_def by simp
    then show ?thesis using i(1) by simp
  qed
  have lv: "l = (if Suc i = k then 0 else Suc i)"
  proof (cases "Suc i = k")
    case True
    then show ?thesis unfolding l_def by simp
  next
    case False
    then have "Suc i < k" using i(1) by simp
    then show ?thesis using False unfolding l_def by simp
  qed
  have jl: "j \<noteq> l"
    using i(1) k3 unfolding lv j_def by (cases "i = 0"; cases "Suc i = k") auto
  have "adjacent (p ! j) c" using adj [OF jk] unfolding sj i(2) .
  moreover have "adjacent (p ! l) c"
    using adj [OF i(1)] unfolding i(2) l_def [symmetric] by (simp add: adjacent_sym)
  moreover have "p ! j \<noteq> p ! l"
    using di jk lk jl unfolding k_def by (simp add: nth_eq_iff_index_eq)
  moreover have "p ! j \<in> set p" "p ! l \<in> set p"
    using jk lk unfolding k_def by simp_all
  ultimately show ?thesis by blast
qed

lemma isCycle_mono:
  assumes "isCycle m' p" and "\<And>c. c \<in> set p \<Longrightarrow> openCell m c"
  shows "isCycle m p"
  using assms unfolding isCycle_def by blast

lemma walk_mono:
  assumes "\<And>c. openCell m c \<Longrightarrow> openCell m' c"
  shows "(walk m)\<^sup>* \<subseteq> (walk m')\<^sup>*"
proof (rule rtrancl_mono)
  show "walk m \<subseteq> walk m'" using assms unfolding walk_def by blast
qed

subsection \<open>The open cells along the loop\<close>

lemma openCell_iff:
  assumes "structInv w h s"
  shows "openCell (maze s) c
           \<longleftrightarrow> grid (maze s) c = Some startTile \<or> grid (maze s) c = Some pathTile"
proof (cases "inBounds w h c")
  case True
  then show ?thesis
    using structInvD(5) [OF assms, of c]
    by (auto simp: openCell_def wallTile_def startTile_def pathTile_def)
next
  case False
  then have "grid (maze s) c = None"
    using grid_outside [OF structInvD(1) [OF assms]] by blast
  then show ?thesis by (simp add: openCell_def)
qed

lemma between_not_lattice: "betweenCell c \<Longrightarrow> \<not> latticeCell c"
  by (auto simp: betweenCell_def latticeCell_def)

lemma pushed_open:
  assumes inv: "structInv w h s" and pu: "pushed w h s s' n"
  shows "\<And>c. openCell (maze s') c
              \<longleftrightarrow> openCell (maze s) c \<or> c = n \<or> c = midpoint (last (stack s)) n"
    and "\<not> openCell (maze s) n"
    and "\<not> openCell (maze s) (midpoint (last (stack s)) n)"
    and "openCell (maze s) (last (stack s))"
proof -
  define cur where "cur = last (stack s)"
  note p = pushedD [OF pu, folded cur_def]
  note i = structInvD [OF inv]
  note geo = step_geometry [OF p(4) p(1)]
  have n1: "n \<noteq> (1, 1)" using p(3) i(2) by blast
  show "openCell (maze s') c \<longleftrightarrow> openCell (maze s) c \<or> c = n \<or> c = midpoint cur n" for c
    unfolding openCell_def p(14) by (simp add: pathTile_def)
  have "grid (maze s) n \<noteq> Some pathTile" using i(7) [OF geo(2)] p(3) by blast
  moreover have "grid (maze s) n \<noteq> Some startTile" using i(6) [of n] n1 by blast
  ultimately show "\<not> openCell (maze s) n" unfolding openCell_iff [OF inv] by blast
  have "grid (maze s) (midpoint cur n) \<noteq> Some pathTile"
  proof
    assume a: "grid (maze s) (midpoint cur n) = Some pathTile"
    have "adjacent n (midpoint cur n)" using geo(4) by (simp add: adjacent_sym)
    then have "n \<in> visited s" using i(9) [OF a geo(8) geo(2)] by blast
    then show False using p(3) by blast
  qed
  moreover have "grid (maze s) (midpoint cur n) \<noteq> Some startTile"
    using i(6) [of "midpoint cur n"] geo(8) latticeCell_start by metis
  ultimately show "\<not> openCell (maze s) (midpoint cur n)"
    unfolding openCell_iff [OF inv] by blast
  show "openCell (maze s) cur"
  proof (cases "cur = (1, 1)")
    case True
    then show ?thesis using i(6) [of cur] p(9) unfolding openCell_iff [OF inv] by blast
  next
    case False
    then show ?thesis using i(7) [OF p(4)] p(5) unfolding openCell_iff [OF inv] by blast
  qed
qed

lemma pushed_open_neighbours:
  assumes inv: "structInv w h s" and pu: "pushed w h s s' n"
  shows "\<And>a. openCell (maze s') a \<Longrightarrow> adjacent a n \<Longrightarrow> a = midpoint (last (stack s)) n"
    and "\<And>a. openCell (maze s') a \<Longrightarrow> adjacent a (midpoint (last (stack s)) n)
           \<Longrightarrow> a = last (stack s) \<or> a = n"
proof -
  define cur where "cur = last (stack s)"
  note p = pushedD [OF pu, folded cur_def]
  note i = structInvD [OF inv]
  note geo = step_geometry [OF p(4) p(1)]
  note po = pushed_open [OF inv pu, folded cur_def]
  show "a = midpoint cur n" if o: "openCell (maze s') a" and ad: "adjacent a n" for a
  proof (rule ccontr)
    assume ne: "a \<noteq> midpoint cur n"
    have bt: "betweenCell a" using geo(2) ad by (rule lattice_neighbours_between)
    then have nl: "\<not> latticeCell a" by (rule between_not_lattice)
    have "a \<noteq> n" using nl geo(2) by blast
    then have "openCell (maze s) a" using o ne unfolding po(1) by blast
    then have "grid (maze s) a = Some startTile \<or> grid (maze s) a = Some pathTile"
      unfolding openCell_iff [OF inv] .
    moreover have "grid (maze s) a \<noteq> Some startTile"
      using i(6) [of a] nl latticeCell_start by metis
    ultimately have pa: "grid (maze s) a = Some pathTile" by blast
    have "adjacent n a" using ad by (simp add: adjacent_sym)
    then have "n \<in> visited s" using i(9) [OF pa nl geo(2)] by blast
    then show False using p(3) by blast
  qed
  show "a = cur \<or> a = n"
    if o: "openCell (maze s') a" and ad: "adjacent a (midpoint cur n)" for a
  proof (cases "a = n")
    case True
    then show ?thesis by blast
  next
    case False
    have "a \<noteq> midpoint cur n" using ad by (auto simp: adjacent_def)
    then have "openCell (maze s) a" using o False unfolding po(1) by blast
    then have "grid (maze s) a = Some startTile \<or> grid (maze s) a = Some pathTile"
      unfolding openCell_iff [OF inv] .
    then have "latticeCell a \<or> betweenCell a"
    proof
      assume "grid (maze s) a = Some startTile"
      then have "a = (1, 1)" using i(6) [of a] by blast
      then show ?thesis using latticeCell_start by blast
    next
      assume "grid (maze s) a = Some pathTile"
      then show ?thesis using i(8) [of a] by blast
    qed
    then show ?thesis by (rule between_neighbours [OF p(4) p(1) ad])
  qed
qed

lemma pushed_acycInv:
  assumes inv: "structInv w h s" and pu: "pushed w h s s' n" and ac: "acycInv s"
  shows "acycInv s'"
  unfolding acycInv_def
proof
  define cur where "cur = last (stack s)"
  note po = pushed_open [OF inv pu, folded cur_def]
  note nb = pushed_open_neighbours [OF inv pu, folded cur_def]
  assume "\<exists>p. isCycle (maze s') p"
  then obtain p where cy: "isCycle (maze s') p" by blast
  have op: "\<And>c. c \<in> set p \<Longrightarrow> openCell (maze s') c"
    using cy unfolding isCycle_def by blast
  have nn: "n \<notin> set p"
  proof
    assume "n \<in> set p"
    then obtain a b where ab: "a \<in> set p" "b \<in> set p" "a \<noteq> b" "adjacent a n" "adjacent b n"
      using cycle_neighbours [OF cy] by blast
    have "a = midpoint cur n" using op [OF ab(1)] ab(4) by (rule nb(1))
    moreover have "b = midpoint cur n" using op [OF ab(2)] ab(5) by (rule nb(1))
    ultimately show False using ab(3) by blast
  qed
  have mn: "midpoint cur n \<notin> set p"
  proof
    assume "midpoint cur n \<in> set p"
    then obtain a b where ab: "a \<in> set p" "b \<in> set p" "a \<noteq> b"
      "adjacent a (midpoint cur n)" "adjacent b (midpoint cur n)"
      using cycle_neighbours [OF cy] by blast
    have "a = cur \<or> a = n" using op [OF ab(1)] ab(4) by (rule nb(2))
    moreover have "b = cur \<or> b = n" using op [OF ab(2)] ab(5) by (rule nb(2))
    ultimately show False using ab(1,2,3) nn by blast
  qed
  have "openCell (maze s) c" if "c \<in> set p" for c
    using op [OF that] that nn mn unfolding po(1) by blast
  then have "isCycle (maze s) p" by (rule isCycle_mono [OF cy])
  then show False using ac unfolding acycInv_def by blast
qed

lemma pushed_connInv:
  assumes inv: "structInv w h s" and pu: "pushed w h s s' n" and co: "connInv s"
  shows "connInv s'"
  unfolding connInv_def
proof (intro allI impI)
  fix c
  assume oc: "openCell (maze s') c"
  define cur where "cur = last (stack s)"
  note p = pushedD [OF pu, folded cur_def]
  note geo = step_geometry [OF p(4) p(1)]
  note po = pushed_open [OF inv pu, folded cur_def]
  have sub: "(walk (maze s))\<^sup>* \<subseteq> (walk (maze s'))\<^sup>*"
    by (rule walk_mono) (simp add: po(1) cur_def)
  have rc: "((1, 1), cur) \<in> (walk (maze s'))\<^sup>*"
    using co po(4) sub unfolding connInv_def by blast
  have e1: "(cur, midpoint cur n) \<in> walk (maze s')"
    unfolding walk_def using po(1) po(4) geo(3) by blast
  have e2: "(midpoint cur n, n) \<in> walk (maze s')"
    unfolding walk_def using po(1) geo(4) by blast
  have rm: "((1, 1), midpoint cur n) \<in> (walk (maze s'))\<^sup>*"
    using rc e1 by (rule rtrancl_into_rtrancl)
  have rn: "((1, 1), n) \<in> (walk (maze s'))\<^sup>*"
    using rm e2 by (rule rtrancl_into_rtrancl)
  have "openCell (maze s) c \<or> c = n \<or> c = midpoint cur n" using oc unfolding po(1) .
  then show "((1, 1), c) \<in> (walk (maze s'))\<^sup>*"
    using co sub rm rn unfolding connInv_def by blast
qed

lemma pushed_countInv:
  assumes inv: "structInv w h s" and pu: "pushed w h s s' n" and cn: "countInv s"
  shows "countInv s'"
proof -
  define cur where "cur = last (stack s)"
  note p = pushedD [OF pu, folded cur_def]
  note i = structInvD [OF inv]
  note geo = step_geometry [OF p(4) p(1)]
  note po = pushed_open [OF inv pu, folded cur_def]
  define W where "W = {c. betweenCell c \<and> grid (maze s) c = Some pathTile}"
  have c0: "finite (visited s)" "card (visited s) = Suc (randomCalls s)"
    "finite W" "card W = randomCalls s"
    using cn unfolding countInv_def W_def by blast+
  have nm: "midpoint cur n \<notin> W"
    using po(3) unfolding W_def openCell_iff [OF inv] by blast
  have "\<not> betweenCell n" using geo(2) between_not_lattice by blast
  then have "{c. betweenCell c \<and> grid (maze s') c = Some pathTile} = insert (midpoint cur n) W"
    unfolding W_def p(14) using geo(1) by auto
  moreover have "card (insert (midpoint cur n) W) = Suc (randomCalls s)"
    using c0(3,4) nm by simp
  moreover have "card (insert n (visited s)) = Suc (Suc (randomCalls s))"
    using c0(1,2) p(3) by simp
  ultimately show ?thesis
    unfolding countInv_def p(11) p(12) using c0(1,3) by simp
qed

subsection \<open>The invariant holds when the loop ends\<close>

lemma openCell_init:
  assumes "carveInit w h = Inr s0" and "openCell (maze s0) c"
  shows "c = (1, 1)"
proof (rule ccontr)
  assume "c \<noteq> (1, 1)"
  then have "grid (maze s0) c = Some wallTile \<or> grid (maze s0) c = None"
    unfolding carveInit_Inr(7) [OF assms(1)] by simp
  then show False using assms(2) by (auto simp: openCell_def wallTile_def)
qed

lemma carveInv_init:
  assumes "carveInit w h = Inr s0"
  shows "carveInv w h s0"
proof -
  note i = carveInit_Inr [OF assms]
  have a: "connInv s0"
    unfolding connInv_def using openCell_init [OF assms] by blast
  have b: "acycInv s0"
    unfolding acycInv_def
  proof
    assume "\<exists>p. isCycle (maze s0) p"
    then obtain p where p: "3 \<le> length p" "distinct p" "\<And>c. c \<in> set p \<Longrightarrow> openCell (maze s0) c"
      unfolding isCycle_def by blast
    have l: "0 < length p" "1 < length p" using p(1) by linarith+
    have "p ! 0 \<in> set p" using l(1) by (rule nth_mem)
    moreover have "p ! 1 \<in> set p" using l(2) by (rule nth_mem)
    ultimately have "p ! 0 \<in> set p" "p ! 1 \<in> set p" by blast+
    then have "p ! 0 = (1, 1)" "p ! 1 = (1, 1)"
      using p(3) openCell_init [OF assms] by blast+
    moreover have "p ! 0 \<noteq> p ! 1"
      using p(2) l nth_eq_iff_index_eq [of p 0 1] by simp
    ultimately show False by simp
  qed
  have "grid (maze s0) c \<noteq> Some pathTile" for c
    unfolding i(7) by (simp add: tiles_distinct)
  then have e: "{c. betweenCell c \<and> grid (maze s0) c = Some pathTile} = {}" by blast
  have c: "countInv s0" unfolding countInv_def e by (simp add: i(4,5))
  show ?thesis unfolding carveInv_def using structInv_init [OF assms] a b c by blast
qed

lemma carveInv_step:
  assumes inv: "carveInv w h s" and ne: "stack s \<noteq> []"
  shows "carveInv w h (carveStep w h rand s)"
proof (cases "neighbors w h (visited s) (last (stack s)) = []")
  case True
  have "connInv (s\<lparr>stack := butlast (stack s)\<rparr>) = connInv s"
    "acycInv (s\<lparr>stack := butlast (stack s)\<rparr>) = acycInv s"
    "countInv (s\<lparr>stack := butlast (stack s)\<rparr>) = countInv s"
    by (simp_all add: connInv_def acycInv_def countInv_def)
  then show ?thesis
    using inv structInv_pop [of w h s] unfolding carveStep_pop [OF True] carveInv_def by blast
next
  case False
  have si: "structInv w h s" using inv unfolding carveInv_def by blast
  obtain n where pu: "pushed w h s (carveStep w h rand s) n"
    using push_effect [OF si ne False] by blast
  show ?thesis
    unfolding carveInv_def
    using inv pushed_structInv [OF si pu] pushed_connInv [OF si pu] pushed_acycInv [OF si pu]
      pushed_countInv [OF si pu]
    unfolding carveInv_def by blast
qed

lemma carveLoop_carveInv:
  assumes "carveInit w h = Inr s0"
  shows "carveInv w h (carveLoop w h rand s0) \<and> stack (carveLoop w h rand s0) = []"
  using carveInv_init [OF assms] carveInv_step
  by (rule carveLoop_invariant)

subsection \<open>The number of visits\<close>

lemma half_le_ceiling: "(k - 1) div 2 \<le> \<lceil>real_of_int k / 2\<rceil>"
proof -
  have "real_of_int ((k - 1) div 2) \<le> real_of_int (k - 1) / 2"
    using of_int_floor_le [of "real_of_int (k - 1) / 2"]
    by (simp add: floor_divide_of_int_eq [symmetric] del: of_int_diff)
  also have "\<dots> \<le> real_of_int k / 2" by simp
  also have "\<dots> \<le> real_of_int \<lceil>real_of_int k / 2\<rceil>" by (rule le_of_int_ceiling)
  finally show ?thesis by simp
qed

lemma card_oddInside:
  assumes "0 \<le> k"
  shows "finite (oddInside k) \<and> int (card (oddInside k)) \<le> \<lceil>real_of_int k / 2\<rceil>"
proof -
  have sub: "oddInside k \<subseteq> (\<lambda>j. 2 * j + 1) ` {0..<(k - 1) div 2}"
  proof
    fix x
    assume "x \<in> oddInside k"
    then have x: "odd x" "0 < x" "x < k - 1" unfolding oddInside_def by blast+
    have "x = 2 * (x div 2) + 1" using x(1) by presburger
    moreover have "0 \<le> x div 2" "x div 2 < (k - 1) div 2" using x by presburger+
    ultimately show "x \<in> (\<lambda>j. 2 * j + 1) ` {0..<(k - 1) div 2}" by auto
  qed
  have fin: "finite (oddInside k)" using sub by (rule finite_subset) simp
  have "card (oddInside k) \<le> card ((\<lambda>j. 2 * j + 1) ` {0..<(k - 1) div 2})"
    using sub by (intro card_mono) simp_all
  also have "\<dots> \<le> card {0..<(k - 1) div 2}" by (rule card_image_le) simp
  finally have le: "card (oddInside k) \<le> nat ((k - 1) div 2)" by simp
  have c0: "0 \<le> \<lceil>real_of_int k / 2\<rceil>" using assms by (simp add: ceiling_le_iff le_ceiling_iff)
  have "int (card (oddInside k)) \<le> \<lceil>real_of_int k / 2\<rceil>"
  proof (cases "0 \<le> (k - 1) div 2")
    case True
    then have "int (card (oddInside k)) \<le> (k - 1) div 2" using le by linarith
    then show ?thesis using half_le_ceiling [of k] by linarith
  next
    case False
    then have "card (oddInside k) = 0" using le by simp
    then show ?thesis using c0 by simp
  qed
  then show ?thesis using fin by blast
qed

text \<open>
  The visited positions at the end are at most \<open>\<lceil>w / 2\<rceil> \<times> \<lceil>h / 2\<rceil>\<close> when the
  width is at least 1.
\<close>

lemma visited_bound:
  assumes inv: "structInv w h s" and w: "1 \<le> w" and h: "2 \<le> h"
  shows "finite (visited s)
         \<and> int (card (visited s)) \<le> \<lceil>real_of_int w / 2\<rceil> * \<lceil>real_of_int h / 2\<rceil>"
proof -
  note i = structInvD [OF inv]
  have cw: "finite (oddInside w)" "int (card (oddInside w)) \<le> \<lceil>real_of_int w / 2\<rceil>"
    using card_oddInside [of w] w by simp_all
  have ch: "finite (oddInside h)" "int (card (oddInside h)) \<le> \<lceil>real_of_int h / 2\<rceil>"
    using card_oddInside [of h] h by simp_all
  have w1: "1 \<le> \<lceil>real_of_int w / 2\<rceil>" using w by (simp add: le_ceiling_iff)
  have h1: "1 \<le> \<lceil>real_of_int h / 2\<rceil>" using h by (simp add: le_ceiling_iff)
  have sub: "visited s \<subseteq> insert (1, 1) (oddInside w \<times> oddInside h)"
  proof
    fix c
    assume "c \<in> visited s"
    then have "c = (1, 1) \<or> (c \<in> interior w h \<and> latticeCell c)" by (rule i(3))
    then show "c \<in> insert (1, 1) (oddInside w \<times> oddInside h)"
      by (cases c) (auto simp: interior_def latticeCell_def oddInside_def)
  qed
  have finp: "finite (oddInside w \<times> oddInside h)" using cw(1) ch(1) by simp
  have fin: "finite (visited s)" using sub finp by (meson finite_insert finite_subset)
  show ?thesis
  proof (cases "(1, 1) \<in> oddInside w \<times> oddInside h")
    case True
    then have "visited s \<subseteq> oddInside w \<times> oddInside h" using sub by blast
    then have "card (visited s) \<le> card (oddInside w) * card (oddInside h)"
      using finp card_mono card_cartesian_product by metis
    then have "int (card (visited s)) \<le> int (card (oddInside w)) * int (card (oddInside h))"
      by (metis of_nat_le_iff of_nat_mult)
    also have "\<dots> \<le> \<lceil>real_of_int w / 2\<rceil> * \<lceil>real_of_int h / 2\<rceil>"
    proof -
      have z: "0 \<le> \<lceil>real_of_int w / 2\<rceil>" using w1 by linarith
      show ?thesis by (rule mult_mono [OF cw(2) ch(2) z]) simp
    qed
    finally show ?thesis using fin by blast
  next
    case False
    have "oddInside w \<times> oddInside h = {}"
    proof (rule ccontr)
      assume "oddInside w \<times> oddInside h \<noteq> {}"
      then obtain x y where "x \<in> oddInside w" "y \<in> oddInside h" by blast
      then have "1 \<in> oddInside w" "1 \<in> oddInside h" unfolding oddInside_def by auto
      then show False using False by blast
    qed
    then have "visited s \<subseteq> {(1, 1)}" using sub by (simp only:)
    then have "card (visited s) \<le> card {(1, 1) :: int \<times> int}"
      by (intro card_mono) simp_all
    then have "int (card (visited s)) \<le> 1" by simp
    moreover have "1 \<le> \<lceil>real_of_int w / 2\<rceil> * \<lceil>real_of_int h / 2\<rceil>"
      using w1 h1 by (metis mult_mono mult_1 zero_le_one order_trans)
    ultimately show ?thesis using fin by linarith
  qed
qed

text \<open>
  The pushes are one fewer than the visited positions, and none is made when the
  width is 0.
\<close>

lemma pushes_bound:
  assumes inv: "structInv w h s" and cn: "countInv s" and w: "0 \<le> w" and h: "2 \<le> h"
  shows "int (randomCalls s) \<le> \<lceil>real_of_int w / 2\<rceil> * \<lceil>real_of_int h / 2\<rceil>"
proof (cases "1 \<le> w")
  case True
  have "int (card (visited s)) \<le> \<lceil>real_of_int w / 2\<rceil> * \<lceil>real_of_int h / 2\<rceil>"
    using visited_bound [OF inv True h] by blast
  moreover have "card (visited s) = Suc (randomCalls s)" using cn unfolding countInv_def by blast
  ultimately show ?thesis by linarith
next
  case False
  note i = structInvD [OF inv]
  have w0: "w = 0" using False w by linarith
  have sub: "visited s \<subseteq> {(1, 1)}"
  proof
    fix c
    assume "c \<in> visited s"
    then have "c = (1, 1) \<or> (c \<in> interior w h \<and> latticeCell c)" by (rule i(3))
    moreover have "c \<notin> interior w h" unfolding w0 interior_def by (cases c) simp
    ultimately show "c \<in> {(1, 1)}" by blast
  qed
  have "card (visited s) \<le> card {(1, 1) :: int \<times> int}"
    using sub by (intro card_mono) simp_all
  moreover have "card (visited s) = Suc (randomCalls s)" using cn unfolding countInv_def by blast
  ultimately have "randomCalls s = 0" by simp
  then show ?thesis unfolding w0 by simp
qed


text \<open>
  An iteration pushes or pops; every position pushed is popped once, the start
  position too.
\<close>

lemma carveStep_cases:
  assumes "stack s \<noteq> []"
  shows "(randomCalls (carveStep w h rand s) = Suc (randomCalls s)
          \<and> length (stack (carveStep w h rand s)) = Suc (length (stack s)))
         \<or> (randomCalls (carveStep w h rand s) = randomCalls s
            \<and> Suc (length (stack (carveStep w h rand s))) = length (stack s))"
proof (cases "neighbors w h (visited s) (last (stack s)) = []")
  case True
  then show ?thesis using assms by (simp add: carveStep_def Let_def)
next
  case False
  then show ?thesis by (simp add: carveStep_def Let_def)
qed

lemma carveIterations_count:
  "carveIterations w h rand s + 2 * randomCalls s
     = 2 * randomCalls (carveLoop w h rand s) + length (stack s)"
proof (induction w h rand s rule: carveLoop.induct)
  case (1 w h rand s)
  show ?case
  proof (cases "stack s = []")
    case True
    then show ?thesis
      by (simp add: carveLoop.simps [of w h rand s] carveIterations.simps [of w h rand s])
  next
    case False
    have l: "carveLoop w h rand s = carveLoop w h rand (carveStep w h rand s)"
      using False by (simp add: carveLoop.simps [of w h rand s])
    have c: "carveIterations w h rand s = Suc (carveIterations w h rand (carveStep w h rand s))"
      using False by (simp add: carveIterations.simps [of w h rand s])
    note ih = "1.IH" [OF False]
    show ?thesis using carveStep_cases [OF False, of w h rand] ih unfolding l c by linarith
  qed
qed

section \<open>Termination of the carving loop and the number of visits\<close>

text \<open>
  C5 (as the code has it). \<open>carveLoop\<close> is a total function: for every width, height
  and random source with which \<open>generate\<close> reaches the loop, the loop ends, and it ends
  with the empty stack. Every push marks a position that was not visited, so the
  number of visited positions is one (the start, marked before the loop) more than
  the number of pushes, which is the number of calls of \<open>Math.random\<close>. The number of
  pushes is at most \<open>\<lceil>width / 2\<rceil> \<times> \<lceil>height / 2\<rceil>\<close>, and for a width of at least 1 so is
  the number of visited positions. The body of the loop runs once for every push and
  once for every pop: twice the number of pushes, plus one.
\<close>

theorem carveLoop_terminates_bounded:
  assumes "carveInit w h = Inr s0"
  shows "stack (carveLoop w h rand s0) = []
         \<and> card (visited (carveLoop w h rand s0)) = Suc (randomCalls (carveLoop w h rand s0))
         \<and> int (randomCalls (carveLoop w h rand s0))
             \<le> \<lceil>real_of_int w / 2\<rceil> * \<lceil>real_of_int h / 2\<rceil>
         \<and> (1 \<le> w \<longrightarrow> int (card (visited (carveLoop w h rand s0)))
                           \<le> \<lceil>real_of_int w / 2\<rceil> * \<lceil>real_of_int h / 2\<rceil>)
         \<and> carveIterations w h rand s0 = 2 * randomCalls (carveLoop w h rand s0) + 1"
proof -
  define s where "s = carveLoop w h rand s0"
  have inv: "carveInv w h s" and st: "stack s = []"
    using carveLoop_carveInv [OF assms(1), of rand] unfolding s_def by blast+
  have si: "structInv w h s" and cn: "countInv s"
    using inv unfolding carveInv_def by blast+
  have w: "0 \<le> w" by (rule carveInit_Inr(1) [OF assms(1)])
  have h: "2 \<le> h" by (rule carveInit_Inr(2) [OF assms(1)])
  have a: "card (visited s) = Suc (randomCalls s)" using cn unfolding countInv_def by blast
  have b: "int (randomCalls s) \<le> \<lceil>real_of_int w / 2\<rceil> * \<lceil>real_of_int h / 2\<rceil>"
    by (rule pushes_bound [OF si cn w h])
  have c: "1 \<le> w \<longrightarrow> int (card (visited s)) \<le> \<lceil>real_of_int w / 2\<rceil> * \<lceil>real_of_int h / 2\<rceil>"
    using visited_bound [OF si _ h] by blast
  have d: "carveIterations w h rand s0 = 2 * randomCalls s + 1"
    using carveIterations_count [of w h rand s0]
    unfolding carveInit_Inr(3) [OF assms(1)] carveInit_Inr(5) [OF assms(1)] s_def by simp
  show ?thesis using st a b c d unfolding s_def by blast
qed

theorem carveLoop_terminates_bounded_witness:
  "carveInit 5 3 = Inr state53
   \<and> stack (carveLoop 5 3 firstChoice state53) = []
   \<and> visited (carveLoop 5 3 firstChoice state53) = {(1, 1), (3, 1)}
   \<and> randomCalls (carveLoop 5 3 firstChoice state53) = 1
   \<and> carveIterations 5 3 firstChoice state53 = 3
   \<and> int (randomCalls (carveLoop 5 3 firstChoice state53))
       \<le> \<lceil>real_of_int 5 / 2\<rceil> * \<lceil>real_of_int 3 / 2\<rceil>
   \<and> int (card (visited (carveLoop 5 3 firstChoice state53)))
       \<le> \<lceil>real_of_int 5 / 2\<rceil> * \<lceil>real_of_int 3 / 2\<rceil>"
proof -
  have a: "carveInit 5 3 = Inr state53" by code_simp
  have c: "visited (carveLoop 5 3 firstChoice state53) = {(1, 1), (3, 1)}" by code_simp
  note t = carveLoop_terminates_bounded [OF a, of firstChoice]
  have s: "stack (carveLoop 5 3 firstChoice state53) = []" using t by blast
  have k: "card (visited (carveLoop 5 3 firstChoice state53))
             = Suc (randomCalls (carveLoop 5 3 firstChoice state53))" using t by blast
  have r: "randomCalls (carveLoop 5 3 firstChoice state53) = 1" using k unfolding c by simp
  have i: "carveIterations 5 3 firstChoice state53 = 3" using t unfolding r by simp
  have p: "int (randomCalls (carveLoop 5 3 firstChoice state53))
             \<le> \<lceil>real_of_int 5 / 2\<rceil> * \<lceil>real_of_int 3 / 2\<rceil>" using t by blast
  have v: "int (card (visited (carveLoop 5 3 firstChoice state53)))
             \<le> \<lceil>real_of_int 5 / 2\<rceil> * \<lceil>real_of_int 3 / 2\<rceil>" using t by simp
  show ?thesis using a s c r i p v by blast
qed

text \<open>
  C5 as stated bounds the visits by \<open>\<lceil>width / 2\<rceil> \<times> \<lceil>height / 2\<rceil>\<close> for every width and
  height. For width 0 and height 2 the start position is marked visited and the bound
  is 0. For width 7 and height 7, with the first neighbour chosen every time, 9
  positions are visited and the body of the loop runs 17 times; the bound is 16.
\<close>

theorem carveLoop_visits_counterexample:
  "carveInit 0 2 = Inr state02
   \<and> visited (carveLoop 0 2 firstChoice state02) = {(1, 1)}
   \<and> card (visited (carveLoop 0 2 firstChoice state02)) = 1
   \<and> \<lceil>real_of_int 0 / 2\<rceil> * \<lceil>real_of_int 2 / 2\<rceil> = 0
   \<and> carveInit 7 7 = Inr state77
   \<and> carveIterations 7 7 firstChoice state77 = 17
   \<and> card (visited (carveLoop 7 7 firstChoice state77)) = 9
   \<and> \<lceil>real_of_int 7 / 2\<rceil> * \<lceil>real_of_int 7 / 2\<rceil> = 16"
proof -
  have a: "carveInit 0 2 = Inr state02" by code_simp
  have c: "visited (carveLoop 0 2 firstChoice state02) = {(1, 1)}" by code_simp
  have d: "carveInit 7 7 = Inr state77" by code_simp
  have e: "carveIterations 7 7 firstChoice state77 = 17" by code_simp
  have f: "card (visited (carveLoop 7 7 firstChoice state77)) = 9" by code_simp
  have g: "\<lceil>real_of_int 7 / 2\<rceil> * \<lceil>real_of_int 7 / 2\<rceil> = (16 :: int)"
    by (simp add: ceiling_divide_eq_div_numeral)
  show ?thesis using a c d e f g by simp
qed

section \<open>The scan for the end cell\<close>

lemma generate_carvedMaze:
  "generate w h rand =
     (case carvedMaze w h rand of Inl e \<Rightarrow> Inl e | Inr m \<Rightarrow> Inr (placeEnd w h m))"
  by (simp add: generate_def carvedMaze_def placeEnd_def Let_def split: sum.splits)

lemma fold_rows:
  "fold (\<lambda>y acc. fold (f y) xs acc) ys acc
     = fold (\<lambda>c. f (snd c) (fst c)) (concat (map (\<lambda>y. map (\<lambda>x. (x, y)) xs) ys)) acc"
proof (induction ys arbitrary: acc)
  case Nil
  show ?case by simp
next
  case (Cons y ys)
  have "fold (\<lambda>c. f (snd c) (fst c)) (map (\<lambda>x. (x, y)) xs) acc = fold (f y) xs acc"
    by (simp add: fold_map comp_def)
  then show ?case using Cons.IH by simp
qed

lemma findEnd_scanOrder: "findEnd w h m = fold (scanStep m) (scanOrder w h) (0, 1, 1)"
proof -
  have "(\<lambda>c. scanCell m (snd c) (fst c)) = scanStep m"
    by (intro ext) (simp add: scanStep_def)
  then show ?thesis
    unfolding findEnd_def scanOrder_def using fold_rows [of "scanCell m"] by simp
qed

lemma scanStep_eq:
  "scanStep m c acc
     = (if pathAt m c \<and> manhattan c > fst acc then (manhattan c, c) else acc)"
  by (cases c) (simp add: scanStep_def scanCell_def pathAt_def grid_def manhattan_def Let_def)

lemma scan_fold:
  "(fold (scanStep m) cs acc = acc \<and> (\<forall>c \<in> set cs. pathAt m c \<longrightarrow> manhattan c \<le> fst acc))
   \<or> (\<exists>pre e post. cs = pre @ e # post \<and> pathAt m e
         \<and> fold (scanStep m) cs acc = (manhattan e, e) \<and> fst acc < manhattan e
         \<and> (\<forall>c \<in> set pre. pathAt m c \<longrightarrow> manhattan c < manhattan e)
         \<and> (\<forall>c \<in> set post. pathAt m c \<longrightarrow> manhattan c \<le> manhattan e))"
proof (induction cs arbitrary: acc)
  case Nil
  show ?case by simp
next
  case (Cons c cs)
  show ?case
  proof (cases "pathAt m c \<and> manhattan c > fst acc")
    case True
    then have st: "scanStep m c acc = (manhattan c, c)" by (simp add: scanStep_eq)
    from Cons.IH [of "(manhattan c, c)"] show ?thesis
    proof
      assume a: "fold (scanStep m) cs (manhattan c, c) = (manhattan c, c)
                 \<and> (\<forall>d \<in> set cs. pathAt m d \<longrightarrow> manhattan d \<le> fst (manhattan c, c))"
      have "c # cs = [] @ c # cs \<and> pathAt m c
            \<and> fold (scanStep m) (c # cs) acc = (manhattan c, c) \<and> fst acc < manhattan c
            \<and> (\<forall>d \<in> set []. pathAt m d \<longrightarrow> manhattan d < manhattan c)
            \<and> (\<forall>d \<in> set cs. pathAt m d \<longrightarrow> manhattan d \<le> manhattan c)"
        using a True st by simp
      then show ?thesis by blast
    next
      assume "\<exists>pre e post. cs = pre @ e # post \<and> pathAt m e
         \<and> fold (scanStep m) cs (manhattan c, c) = (manhattan e, e)
         \<and> fst (manhattan c, c) < manhattan e
         \<and> (\<forall>d \<in> set pre. pathAt m d \<longrightarrow> manhattan d < manhattan e)
         \<and> (\<forall>d \<in> set post. pathAt m d \<longrightarrow> manhattan d \<le> manhattan e)"
      then obtain pre e post where b: "cs = pre @ e # post" "pathAt m e"
        "fold (scanStep m) cs (manhattan c, c) = (manhattan e, e)"
        "manhattan c < manhattan e"
        "\<forall>d \<in> set pre. pathAt m d \<longrightarrow> manhattan d < manhattan e"
        "\<forall>d \<in> set post. pathAt m d \<longrightarrow> manhattan d \<le> manhattan e"
        by auto
      have "c # cs = (c # pre) @ e # post \<and> pathAt m e
            \<and> fold (scanStep m) (c # cs) acc = (manhattan e, e) \<and> fst acc < manhattan e
            \<and> (\<forall>d \<in> set (c # pre). pathAt m d \<longrightarrow> manhattan d < manhattan e)
            \<and> (\<forall>d \<in> set post. pathAt m d \<longrightarrow> manhattan d \<le> manhattan e)"
        using b True st by simp
      then show ?thesis by blast
    qed
  next
    case False
    then have st: "scanStep m c acc = acc" unfolding scanStep_eq by (simp only: if_False)
    have cle: "pathAt m c \<longrightarrow> manhattan c \<le> fst acc" using False by auto
    from Cons.IH [of acc] show ?thesis
    proof
      assume "fold (scanStep m) cs acc = acc
              \<and> (\<forall>d \<in> set cs. pathAt m d \<longrightarrow> manhattan d \<le> fst acc)"
      then have "fold (scanStep m) (c # cs) acc = acc
              \<and> (\<forall>d \<in> set (c # cs). pathAt m d \<longrightarrow> manhattan d \<le> fst acc)"
        using st cle by simp
      then show ?thesis by blast
    next
      assume "\<exists>pre e post. cs = pre @ e # post \<and> pathAt m e
         \<and> fold (scanStep m) cs acc = (manhattan e, e) \<and> fst acc < manhattan e
         \<and> (\<forall>d \<in> set pre. pathAt m d \<longrightarrow> manhattan d < manhattan e)
         \<and> (\<forall>d \<in> set post. pathAt m d \<longrightarrow> manhattan d \<le> manhattan e)"
      then obtain pre e post where b: "cs = pre @ e # post" "pathAt m e"
        "fold (scanStep m) cs acc = (manhattan e, e)"
        "fst acc < manhattan e"
        "\<forall>d \<in> set pre. pathAt m d \<longrightarrow> manhattan d < manhattan e"
        "\<forall>d \<in> set post. pathAt m d \<longrightarrow> manhattan d \<le> manhattan e"
        by auto
      have "c # cs = (c # pre) @ e # post \<and> pathAt m e
            \<and> fold (scanStep m) (c # cs) acc = (manhattan e, e) \<and> fst acc < manhattan e
            \<and> (\<forall>d \<in> set (c # pre). pathAt m d \<longrightarrow> manhattan d < manhattan e)
            \<and> (\<forall>d \<in> set post. pathAt m d \<longrightarrow> manhattan d \<le> manhattan e)"
        using b st cle by auto
      then show ?thesis by blast
    qed
  qed
qed

lemma set_oddsBelow: "set (oddsBelow n) = {x. odd x \<and> 1 \<le> x \<and> x < n}"
  by (auto simp: oddsBelow_def)

lemma set_scanOrder: "set (scanOrder w h) = {c. latticeCell c \<and> c \<in> interior w h}"
  by (auto simp: scanOrder_def set_oddsBelow latticeCell_def interior_def)

lemma sorted_oddsBelow: "sorted_wrt (<) (oddsBelow n)"
  unfolding oddsBelow_def
  by (rule sorted_wrt_filter) (simp add: strict_sorted_iff)

lemma sorted_scanRows:
  assumes "sorted_wrt (<) xs" and "sorted_wrt (<) ys"
  shows "sorted_wrt rowMajorLess (concat (map (\<lambda>y. map (\<lambda>x. (x, y)) xs) ys))"
  using assms(2)
proof (induction ys)
  case Nil
  show ?case by simp
next
  case (Cons y ys)
  have r: "sorted_wrt rowMajorLess (map (\<lambda>x. (x, y)) xs)"
    using assms(1) by (simp add: sorted_wrt_map rowMajorLess_def)
  have t: "sorted_wrt rowMajorLess (concat (map (\<lambda>y. map (\<lambda>x. (x, y)) xs) ys))"
    using Cons by simp
  have c: "\<forall>a \<in> set (map (\<lambda>x. (x, y)) xs).
             \<forall>b \<in> set (concat (map (\<lambda>y. map (\<lambda>x. (x, y)) xs) ys)). rowMajorLess a b"
    using Cons.prems by (auto simp: rowMajorLess_def)
  show ?case using r t c by (simp add: sorted_wrt_append)
qed

lemma sorted_scanOrder: "sorted_wrt rowMajorLess (scanOrder w h)"
  unfolding scanOrder_def by (rule sorted_scanRows) (rule sorted_oddsBelow)+

subsection \<open>The scan on the carved map\<close>

lemma tile_types:
  "tile_type wallTile = WALL" "tile_type startTile = START" "tile_type pathTile = PATH"
  "tile_type endTile = END" "tile_solid wallTile" "\<not> tile_solid startTile"
  "\<not> tile_solid pathTile" "\<not> tile_solid endTile"
  by (simp_all add: wallTile_def startTile_def pathTile_def endTile_def)

lemma pathAt_iff:
  assumes "structInv w h s"
  shows "pathAt (maze s) c \<longleftrightarrow> grid (maze s) c = Some pathTile"
proof (cases "inBounds w h c")
  case True
  then show ?thesis
    using structInvD(5) [OF assms, of c]
    by (auto simp: pathAt_def isPathTile_def tile_types tiles_distinct)
next
  case False
  then have "grid (maze s) c = None"
    using grid_outside [OF structInvD(1) [OF assms]] by blast
  then show ?thesis by (simp add: pathAt_def isPathTile_def)
qed

lemma visited_coords:
  assumes "structInv w h s" and "c \<in> visited s"
  shows "1 \<le> fst c \<and> 1 \<le> snd c"
proof -
  have "c = (1, 1) \<or> (c \<in> interior w h \<and> latticeCell c)"
    using assms(2) by (rule structInvD(3) [OF assms(1)])
  then show ?thesis by (auto simp: interior_def)
qed

lemma lattice_path_scanned:
  assumes inv: "structInv w h s" and l: "latticeCell c" and p: "pathAt (maze s) c"
  shows "c \<in> set (scanOrder w h)" and "0 < manhattan c" and "c \<in> visited s" and "c \<noteq> (1, 1)"
proof -
  have g: "grid (maze s) c = Some pathTile" using p unfolding pathAt_iff [OF inv] .
  then show v: "c \<in> visited s" and n: "c \<noteq> (1, 1)"
    using structInvD(7) [OF inv l] by blast+
  have "c = (1, 1) \<or> (c \<in> interior w h \<and> latticeCell c)"
    using v by (rule structInvD(3) [OF inv])
  then have i: "c \<in> interior w h" using n by blast
  then show "c \<in> set (scanOrder w h)" using l unfolding set_scanOrder by blast
  have "1 \<le> fst c \<and> 1 \<le> snd c" using inv v by (rule visited_coords)
  then show "0 < manhattan c" using n by (cases c) (auto simp: manhattan_def)
qed

lemma findEnd_none:
  assumes inv: "structInv w h s" and no: "\<not> (\<exists>c. latticeCell c \<and> pathAt (maze s) c)"
  shows "findEnd w h (maze s) = (0, 1, 1)"
proof -
  from scan_fold [of "maze s" "scanOrder w h" "(0, 1, 1)"] show ?thesis
  proof
    assume "fold (scanStep (maze s)) (scanOrder w h) (0, 1, 1) = (0, 1, 1)
            \<and> (\<forall>c \<in> set (scanOrder w h). pathAt (maze s) c \<longrightarrow> manhattan c \<le> fst (0 :: int, 1 :: int, 1 :: int))"
    then show ?thesis unfolding findEnd_scanOrder by blast
  next
    assume "\<exists>pre e post. scanOrder w h = pre @ e # post \<and> pathAt (maze s) e
         \<and> fold (scanStep (maze s)) (scanOrder w h) (0, 1, 1) = (manhattan e, e)
         \<and> fst (0 :: int, 1 :: int, 1 :: int) < manhattan e
         \<and> (\<forall>c \<in> set pre. pathAt (maze s) c \<longrightarrow> manhattan c < manhattan e)
         \<and> (\<forall>c \<in> set post. pathAt (maze s) c \<longrightarrow> manhattan c \<le> manhattan e)"
    then obtain pre e post where e: "scanOrder w h = pre @ e # post" "pathAt (maze s) e"
      by blast
    have "e \<in> set (scanOrder w h)" unfolding e(1) by simp
    then have "latticeCell e" unfolding set_scanOrder by blast
    then show ?thesis using no e(2) by blast
  qed
qed

lemma findEnd_some:
  assumes inv: "structInv w h s" and l0: "latticeCell c0" and p0: "pathAt (maze s) c0"
  shows "\<exists>e. findEnd w h (maze s) = (manhattan e, e) \<and> latticeCell e \<and> pathAt (maze s) e
           \<and> (\<forall>c. latticeCell c \<and> pathAt (maze s) c \<longrightarrow> manhattan c \<le> manhattan e)
           \<and> (\<forall>c. latticeCell c \<and> pathAt (maze s) c \<and> manhattan c = manhattan e
                   \<longrightarrow> c = e \<or> rowMajorLess e c)"
proof -
  note c0 = lattice_path_scanned [OF inv l0 p0]
  from scan_fold [of "maze s" "scanOrder w h" "(0, 1, 1)"] show ?thesis
  proof
    assume "fold (scanStep (maze s)) (scanOrder w h) (0, 1, 1) = (0, 1, 1)
            \<and> (\<forall>c \<in> set (scanOrder w h). pathAt (maze s) c \<longrightarrow> manhattan c \<le> fst (0 :: int, 1 :: int, 1 :: int))"
    then have "manhattan c0 \<le> 0" using c0(1) p0 by auto
    then show ?thesis using c0(2) by linarith
  next
    assume "\<exists>pre e post. scanOrder w h = pre @ e # post \<and> pathAt (maze s) e
         \<and> fold (scanStep (maze s)) (scanOrder w h) (0, 1, 1) = (manhattan e, e)
         \<and> fst (0 :: int, 1 :: int, 1 :: int) < manhattan e
         \<and> (\<forall>c \<in> set pre. pathAt (maze s) c \<longrightarrow> manhattan c < manhattan e)
         \<and> (\<forall>c \<in> set post. pathAt (maze s) c \<longrightarrow> manhattan c \<le> manhattan e)"
    then obtain pre e post where e: "scanOrder w h = pre @ e # post" "pathAt (maze s) e"
      "fold (scanStep (maze s)) (scanOrder w h) (0, 1, 1) = (manhattan e, e)"
      "\<And>c. c \<in> set pre \<Longrightarrow> pathAt (maze s) c \<Longrightarrow> manhattan c < manhattan e"
      "\<And>c. c \<in> set post \<Longrightarrow> pathAt (maze s) c \<Longrightarrow> manhattan c \<le> manhattan e"
      by blast
    have "e \<in> set (scanOrder w h)" unfolding e(1) by simp
    then have le: "latticeCell e" unfolding set_scanOrder by blast
    have so: "sorted_wrt rowMajorLess (pre @ e # post)"
      using sorted_scanOrder [of w h] unfolding e(1) .
    then have after: "\<And>c. c \<in> set post \<Longrightarrow> rowMajorLess e c"
      by (simp add: sorted_wrt_append)
    have mem: "c \<in> set pre \<or> c = e \<or> c \<in> set post"
      if "latticeCell c" "pathAt (maze s) c" for c
      using lattice_path_scanned(1) [OF inv that] unfolding e(1) by auto
    have mx: "manhattan c \<le> manhattan e" if "latticeCell c \<and> pathAt (maze s) c" for c
      using mem [of c] e(4) [of c] e(5) [of c] that by fastforce
    have fi: "c = e \<or> rowMajorLess e c"
      if "latticeCell c \<and> pathAt (maze s) c \<and> manhattan c = manhattan e" for c
      using mem [of c] e(4) [of c] after [of c] that by fastforce
    show ?thesis
      using e(2,3) le mx fi unfolding findEnd_scanOrder by blast
  qed
qed

lemma between_path_less:
  assumes inv: "structInv w h s" and g: "grid (maze s) c = Some pathTile" and nl: "\<not> latticeCell c"
  shows "\<exists>f. latticeCell f \<and> pathAt (maze s) f \<and> manhattan c < manhattan f"
proof -
  obtain x y where c: "c = (x, y)" by (cases c)
  have bt: "betweenCell c" using g nl by (rule structInvD(8) [OF inv])
  have vis: "\<And>a. latticeCell a \<Longrightarrow> adjacent a c \<Longrightarrow> a \<in> visited s"
    using structInvD(9) [OF inv g nl] by blast
  have far: "latticeCell f \<and> pathAt (maze s) f"
    if "latticeCell f" "adjacent f c" "f \<noteq> (1, 1)" for f
  proof -
    have "f \<in> visited s" using that(1,2) by (rule vis)
    then have "grid (maze s) f = Some pathTile"
      using structInvD(7) [OF inv that(1)] that(3) by blast
    then show ?thesis using that(1) unfolding pathAt_iff [OF inv] by blast
  qed
  show ?thesis
  proof (cases "odd x")
    case True
    then have ey: "even y" using bt unfolding c betweenCell_def by simp
    have la: "latticeCell (x, y - 1)" "latticeCell (x, y + 1)"
      using True ey by (simp_all add: latticeCell_def)
    have ad: "adjacent (x, y - 1) c" "adjacent (x, y + 1) c"
      unfolding c by (simp_all add: adjacent_def)
    have "1 \<le> fst (x, y - 1) \<and> 1 \<le> snd (x, y - 1)"
      using inv vis [OF la(1) ad(1)] by (rule visited_coords)
    then have pos: "1 \<le> x" "2 \<le> y" by simp_all
    have "(x, y + 1) \<noteq> (1, 1)" using pos by simp
    then have "latticeCell (x, y + 1) \<and> pathAt (maze s) (x, y + 1)"
      using far [OF la(2) ad(2)] by blast
    moreover have "manhattan c < manhattan (x, y + 1)"
      using pos unfolding c manhattan_def by simp
    ultimately show ?thesis by blast
  next
    case False
    then have oy: "odd y" using bt unfolding c betweenCell_def by simp
    have la: "latticeCell (x - 1, y)" "latticeCell (x + 1, y)"
      using False oy by (simp_all add: latticeCell_def)
    have ad: "adjacent (x - 1, y) c" "adjacent (x + 1, y) c"
      unfolding c by (simp_all add: adjacent_def)
    have "1 \<le> fst (x - 1, y) \<and> 1 \<le> snd (x - 1, y)"
      using inv vis [OF la(1) ad(1)] by (rule visited_coords)
    then have pos: "2 \<le> x" "1 \<le> y" by simp_all
    have "(x + 1, y) \<noteq> (1, 1)" using pos by simp
    then have "latticeCell (x + 1, y) \<and> pathAt (maze s) (x + 1, y)"
      using far [OF la(2) ad(2)] by blast
    moreover have "manhattan c < manhattan (x + 1, y)"
      using pos unfolding c manhattan_def by simp
    ultimately show ?thesis by blast
  qed
qed

subsection \<open>The map that \<open>generate\<close> returns\<close>

lemma carvedMaze_Inr:
  assumes "carvedMaze w h rand = Inr m"
  obtains s0 where "carveInit w h = Inr s0" and "m = maze (carveLoop w h rand s0)"
  using assms unfolding carvedMaze_def by (auto split: sum.splits)

lemma end_position:
  assumes inv: "structInv w h s"
  shows "(snd (findEnd w h (maze s)) = (1, 1) \<and> \<not> (\<exists>c. latticeCell c \<and> pathAt (maze s) c))
         \<or> (latticeCell (snd (findEnd w h (maze s)))
            \<and> pathAt (maze s) (snd (findEnd w h (maze s))))"
proof (cases "\<exists>c. latticeCell c \<and> pathAt (maze s) c")
  case True
  then obtain c0 where "latticeCell c0" "pathAt (maze s) c0" by blast
  then obtain e where "findEnd w h (maze s) = (manhattan e, e)" "latticeCell e" "pathAt (maze s) e"
    using findEnd_some [OF inv] by blast
  then show ?thesis by simp
next
  case False
  then show ?thesis using findEnd_none [OF inv False] by simp
qed

lemma placeEnd_grid:
  assumes inv: "structInv w h s"
  shows "grid (placeEnd w h (maze s)) c
           = (if c = snd (findEnd w h (maze s)) \<and> inBounds w h c then Some endTile
              else grid (maze s) c)"
proof -
  have "grid (placeEnd w h (maze s)) c
          = (if c = (fst (snd (findEnd w h (maze s))), snd (snd (findEnd w h (maze s))))
                \<and> inBounds w h c
             then Some endTile else grid (maze s) c)"
    unfolding placeEnd_def by (rule grid_setTile [OF structInvD(1) [OF inv]])
  then show ?thesis by simp
qed

lemma placeEnd_open:
  assumes inv: "structInv w h s"
  shows "openCell (placeEnd w h (maze s)) c \<longleftrightarrow> openCell (maze s) c"
proof (cases "c = snd (findEnd w h (maze s)) \<and> inBounds w h c")
  case True
  have "grid (maze s) c = Some startTile \<or> grid (maze s) c = Some pathTile"
    using end_position [OF inv]
  proof
    assume "snd (findEnd w h (maze s)) = (1, 1) \<and> \<not> (\<exists>c. latticeCell c \<and> pathAt (maze s) c)"
    then have "c = (1, 1)" using True by simp
    then show ?thesis using structInvD(6) [OF inv, of c] True by blast
  next
    assume "latticeCell (snd (findEnd w h (maze s)))
            \<and> pathAt (maze s) (snd (findEnd w h (maze s)))"
    then have "pathAt (maze s) c" using True by simp
    then show ?thesis unfolding pathAt_iff [OF inv] by blast
  qed
  then have "openCell (maze s) c" unfolding openCell_iff [OF inv] .
  moreover have "openCell (placeEnd w h (maze s)) c"
  proof -
    have "grid (placeEnd w h (maze s)) c
            = (if c = snd (findEnd w h (maze s)) \<and> inBounds w h c then Some endTile
               else grid (maze s) c)"
      by (rule placeEnd_grid [OF inv])
    also have "\<dots> = Some endTile" using True by (rule if_P)
    finally show ?thesis unfolding openCell_def by (simp add: tile_types)
  qed
  ultimately show ?thesis by blast
next
  case False
  have "grid (placeEnd w h (maze s)) c
          = (if c = snd (findEnd w h (maze s)) \<and> inBounds w h c then Some endTile
             else grid (maze s) c)"
    by (rule placeEnd_grid [OF inv])
  also have "\<dots> = grid (maze s) c" using False by (rule if_not_P)
  finally show ?thesis unfolding openCell_def by simp
qed

lemma placeEnd_kind:
  assumes inv: "structInv w h s"
  shows "(\<exists>t. grid (placeEnd w h (maze s)) c = Some t \<and> tile_type t \<in> {PATH, START, END})
         \<longleftrightarrow> openCell (placeEnd w h (maze s)) c"
proof (cases "c = snd (findEnd w h (maze s)) \<and> inBounds w h c")
  case True
  have "grid (placeEnd w h (maze s)) c
          = (if c = snd (findEnd w h (maze s)) \<and> inBounds w h c then Some endTile
             else grid (maze s) c)"
    by (rule placeEnd_grid [OF inv])
  also have "\<dots> = Some endTile" using True by (rule if_P)
  finally show ?thesis unfolding openCell_def by (simp add: tile_types)
next
  case False
  have "grid (placeEnd w h (maze s)) c
          = (if c = snd (findEnd w h (maze s)) \<and> inBounds w h c then Some endTile
             else grid (maze s) c)"
    by (rule placeEnd_grid [OF inv])
  also have "\<dots> = grid (maze s) c" using False by (rule if_not_P)
  finally have e: "grid (placeEnd w h (maze s)) c = grid (maze s) c" .
  show ?thesis
  proof (cases "inBounds w h c")
    case True
    then show ?thesis
      using structInvD(5) [OF inv, of c] unfolding openCell_def e
      by (auto simp: tile_types)
  next
    case False
    then have "grid (maze s) c = None"
      using grid_outside [OF structInvD(1) [OF inv]] by blast
    then show ?thesis unfolding openCell_def e by simp
  qed
qed


section \<open>Counting the carved cells\<close>

lemma allCells_wf:
  assumes "wfMap w h m"
  shows "distinct (allCells m)" and "set (allCells m) = {c. inBounds w h c}"
proof -
  have d: "tm_width m = w" "tm_height m = h" using assms by (simp_all add: wfMap_def)
  show "distinct (allCells m)" unfolding allCells_def by (simp add: distinct_product)
  show "set (allCells m) = {c. inBounds w h c}"
    unfolding allCells_def d by (auto simp: inBounds_def)
qed

lemma openCell_inBounds:
  assumes "wfMap w h m" and "openCell m c"
  shows "inBounds w h c"
proof (rule ccontr)
  assume "\<not> inBounds w h c"
  then have "grid m c = None" using grid_outside [OF assms(1)] by blast
  then show False using assms(2) by (simp add: openCell_def)
qed

lemma carved_counts:
  assumes inv: "structInv w h s" and cn: "countInv s" and b1: "inBounds w h (1, 1)"
  shows "length (carvedBetween (placeEnd w h (maze s))) + 1
           = length (carvedLattice (placeEnd w h (maze s)))"
proof -
  define mf where "mf = placeEnd w h (maze s)"
  note i = structInvD [OF inv]
  have wf: "wfMap w h mf" unfolding mf_def placeEnd_def by (rule wfMap_setTile [OF i(1)])
  note ac = allCells_wf [OF wf]
  have op: "openCell mf c \<longleftrightarrow> openCell (maze s) c" for c
    unfolding mf_def by (rule placeEnd_open [OF inv])
  have ob: "inBounds w h c" if "openCell (maze s) c" for c
    using i(1) that by (rule openCell_inBounds)
  have lat: "{c. latticeCell c \<and> openCell mf c} \<inter> set (allCells mf) = visited s"
  proof (intro equalityI subsetI)
    fix c
    assume "c \<in> {c. latticeCell c \<and> openCell mf c} \<inter> set (allCells mf)"
    then have l: "latticeCell c" and o: "openCell (maze s) c" unfolding op by blast+
    have "grid (maze s) c = Some startTile \<or> grid (maze s) c = Some pathTile"
      using o unfolding openCell_iff [OF inv] .
    then show "c \<in> visited s"
    proof
      assume "grid (maze s) c = Some startTile"
      then have "c = (1, 1)" using i(6) [of c] by blast
      then show ?thesis using i(2) by blast
    next
      assume "grid (maze s) c = Some pathTile"
      then show ?thesis using i(7) [OF l] by blast
    qed
  next
    fix c
    assume v: "c \<in> visited s"
    have cs: "c = (1, 1) \<or> (c \<in> interior w h \<and> latticeCell c)" using v by (rule i(3))
    have l: "latticeCell c" using cs latticeCell_start by blast
    have "grid (maze s) c = Some startTile \<or> grid (maze s) c = Some pathTile"
    proof (cases "c = (1, 1)")
      case True
      then show ?thesis using i(6) [of c] b1 by blast
    next
      case False
      then show ?thesis using i(7) [OF l] v by blast
    qed
    then have o: "openCell (maze s) c" unfolding openCell_iff [OF inv] .
    then show "c \<in> {c. latticeCell c \<and> openCell mf c} \<inter> set (allCells mf)"
      using l ob [OF o] unfolding op ac(2) by blast
  qed
  have btw: "{c. betweenCell c \<and> openCell mf c} \<inter> set (allCells mf)
               = {c. betweenCell c \<and> grid (maze s) c = Some pathTile}"
  proof (intro equalityI subsetI)
    fix c
    assume "c \<in> {c. betweenCell c \<and> openCell mf c} \<inter> set (allCells mf)"
    then have b: "betweenCell c" and o: "openCell (maze s) c" unfolding op by blast+
    have "grid (maze s) c = Some startTile \<or> grid (maze s) c = Some pathTile"
      using o unfolding openCell_iff [OF inv] .
    moreover have "grid (maze s) c \<noteq> Some startTile"
      using i(6) [of c] between_not_lattice [OF b] latticeCell_start by metis
    ultimately show "c \<in> {c. betweenCell c \<and> grid (maze s) c = Some pathTile}"
      using b by blast
  next
    fix c
    assume "c \<in> {c. betweenCell c \<and> grid (maze s) c = Some pathTile}"
    then have b: "betweenCell c" and g: "grid (maze s) c = Some pathTile" by blast+
    have o: "openCell (maze s) c" using g unfolding openCell_iff [OF inv] by blast
    show "c \<in> {c. betweenCell c \<and> openCell mf c} \<inter> set (allCells mf)"
      using b o ob [OF o] unfolding op ac(2) by blast
  qed
  have "length (carvedLattice mf) = card (visited s)"
    unfolding carvedLattice_def distinct_length_filter [OF ac(1)] lat ..
  moreover have "length (carvedBetween mf)
                   = card {c. betweenCell c \<and> grid (maze s) c = Some pathTile}"
    unfolding carvedBetween_def distinct_length_filter [OF ac(1)] btw ..
  ultimately show ?thesis
    using cn unfolding countInv_def mf_def by simp
qed


section \<open>The generated maze is a spanning tree\<close>

text \<open>
  C1 (as the code has it). For every maze that \<open>generate\<close> returns, whatever the
  random choices: every cell of kind Path, Start or End is reachable from \<open>(1, 1)\<close>
  by moves between 4-adjacent cells that are not solid, and the cells that are not
  solid contain no cycle. For a width of at least 2 the number of carved cells
  between lattice cells, plus one, is the number of carved lattice cells.
\<close>

theorem generate_spanning_tree:
  assumes "generate w h rand = Inr m"
  shows "(\<forall>c. (\<exists>t. grid m c = Some t \<and> tile_type t \<in> {PATH, START, END})
              \<longrightarrow> ((1, 1), c) \<in> (walk m)\<^sup>*)
         \<and> \<not> (\<exists>p. isCycle m p)
         \<and> (2 \<le> w \<longrightarrow> length (carvedBetween m) + 1 = length (carvedLattice m))"
proof -
  obtain m0 where cm: "carvedMaze w h rand = Inr m0" and m: "m = placeEnd w h m0"
    using assms(1) unfolding generate_carvedMaze by (auto split: sum.splits)
  obtain s0 where s0: "carveInit w h = Inr s0" and m0: "m0 = maze (carveLoop w h rand s0)"
    using cm by (rule carvedMaze_Inr)
  define s where "s = carveLoop w h rand s0"
  have inv: "carveInv w h s"
    using carveLoop_carveInv [OF s0, of rand] unfolding s_def by blast
  have si: "structInv w h s" and co: "connInv s" and ac: "acycInv s" and cn: "countInv s"
    using inv unfolding carveInv_def by blast+
  have mf: "m = placeEnd w h (maze s)" unfolding m m0 s_def ..
  have op: "openCell m c \<longleftrightarrow> openCell (maze s) c" for c
    unfolding mf by (rule placeEnd_open [OF si])
  have wk: "walk m = walk (maze s)" unfolding walk_def op ..
  have h: "2 \<le> h" by (rule carveInit_Inr(2) [OF s0])
  have a: "\<forall>c. (\<exists>t. grid m c = Some t \<and> tile_type t \<in> {PATH, START, END})
              \<longrightarrow> ((1, 1), c) \<in> (walk m)\<^sup>*"
  proof (intro allI impI)
    fix c
    assume "\<exists>t. grid m c = Some t \<and> tile_type t \<in> {PATH, START, END}"
    then have "openCell m c" unfolding mf placeEnd_kind [OF si] .
    then have "openCell (maze s) c" unfolding op .
    then show "((1, 1), c) \<in> (walk m)\<^sup>*" using co unfolding connInv_def wk by blast
  qed
  have b: "\<not> (\<exists>p. isCycle m p)"
  proof
    assume "\<exists>p. isCycle m p"
    then obtain p where "isCycle m p" by blast
    then have "isCycle (maze s) p" unfolding isCycle_def op .
    then show False using ac unfolding acycInv_def by blast
  qed
  have c: "2 \<le> w \<longrightarrow> length (carvedBetween m) + 1 = length (carvedLattice m)"
  proof
    assume "2 \<le> w"
    then have b1: "inBounds w h (1, 1)" using h by (simp add: inBounds_def)
    show "length (carvedBetween m) + 1 = length (carvedLattice m)"
      unfolding mf by (rule carved_counts [OF si cn b1])
  qed
  show ?thesis using a b c by blast
qed

theorem generate_spanning_tree_witness:
  "generate 5 3 firstChoice = Inr maze53
   \<and> grid maze53 (3, 1) = Some endTile
   \<and> ((1, 1), (3, 1)) \<in> (walk maze53)\<^sup>*
   \<and> \<not> (\<exists>p. isCycle maze53 p)
   \<and> length (carvedBetween maze53) + 1 = length (carvedLattice maze53)
   \<and> length (carvedLattice maze53) = 2"
proof -
  have a: "generate 5 3 firstChoice = Inr maze53" by code_simp
  have c: "grid maze53 (3, 1) = Some endTile" by code_simp
  have d: "length (carvedLattice maze53) = 2" by code_simp
  have e: "\<exists>t. grid maze53 (3, 1) = Some t \<and> tile_type t \<in> {PATH, START, END}"
    using c by (simp add: tile_types)
  note t = generate_spanning_tree [OF a]
  have r: "((1, 1), (3, 1)) \<in> (walk maze53)\<^sup>*" using t e by blast
  have n: "\<not> (\<exists>p. isCycle maze53 p)" using t by blast
  have k: "length (carvedBetween maze53) + 1 = length (carvedLattice maze53)" using t by simp
  show ?thesis
    using a c d r n k by simp
qed

text \<open>
  C1 as stated covers every maze that \<open>generate\<close> returns. For width 1 and height 2
  the position \<open>(1, 1)\<close> is outside the map and nothing is carved: no cell between
  lattice cells and no lattice cell, so the first number is not the second minus one.
\<close>

theorem generate_spanning_tree_counterexample:
  "generate 1 2 firstChoice = Inr maze12
   \<and> length (carvedBetween maze12) = 0 \<and> length (carvedLattice maze12) = 0
   \<and> int (length (carvedBetween maze12)) \<noteq> int (length (carvedLattice maze12)) - 1"
proof -
  have a: "generate 1 2 firstChoice = Inr maze12" by code_simp
  have b: "length (carvedBetween maze12) = 0" by code_simp
  have c: "length (carvedLattice maze12) = 0" by code_simp
  show ?thesis using a b c by simp
qed


section \<open>The end cell\<close>

text \<open>
  C4 (as the code has it). When the carved map has a Path cell on the odd
  sub-lattice, the cell that \<open>generate\<close> marks End is such a cell; its Manhattan
  distance from \<open>(1, 1)\<close> is at least that of every Path cell of the map, the carved
  cells off the lattice included; among the lattice Path cells at that distance it
  comes first in the row-major order of the scan; and no other cell is marked End.
\<close>

theorem end_cell_farthest:
  assumes "carvedMaze w h rand = Inr m" and "\<exists>c. latticeCell c \<and> pathAt m c"
  shows "\<exists>e. generate w h rand = Inr (setTile m 0 (fst e) (snd e) endTile)
           \<and> (\<forall>c. grid (setTile m 0 (fst e) (snd e) endTile) c = Some endTile \<longleftrightarrow> c = e)
           \<and> latticeCell e \<and> pathAt m e
           \<and> (\<forall>c. pathAt m c \<longrightarrow> manhattan c \<le> manhattan e)
           \<and> (\<forall>c. latticeCell c \<and> pathAt m c \<and> manhattan c = manhattan e
                   \<longrightarrow> c = e \<or> rowMajorLess e c)"
proof -
  obtain s0 where s0: "carveInit w h = Inr s0" and m0: "m = maze (carveLoop w h rand s0)"
    using assms(1) by (rule carvedMaze_Inr)
  define s where "s = carveLoop w h rand s0"
  have inv: "carveInv w h s"
    using carveLoop_carveInv [OF s0, of rand] unfolding s_def by blast
  have si: "structInv w h s" using inv unfolding carveInv_def by blast
  have ms: "m = maze s" unfolding m0 s_def ..
  note i = structInvD [OF si]
  obtain c0 where c0: "latticeCell c0" "pathAt (maze s) c0" using assms(2) unfolding ms by blast
  obtain e where e: "findEnd w h (maze s) = (manhattan e, e)" "latticeCell e" "pathAt (maze s) e"
    "\<And>c. latticeCell c \<and> pathAt (maze s) c \<Longrightarrow> manhattan c \<le> manhattan e"
    "\<And>c. latticeCell c \<and> pathAt (maze s) c \<and> manhattan c = manhattan e
          \<Longrightarrow> c = e \<or> rowMajorLess e c"
    using findEnd_some [OF si c0] by blast
  have pe: "placeEnd w h (maze s) = setTile (maze s) 0 (fst e) (snd e) endTile"
    unfolding placeEnd_def e(1) by simp
  have ge: "generate w h rand = Inr (setTile (maze s) 0 (fst e) (snd e) endTile)"
    unfolding generate_carvedMaze assms(1) ms [symmetric] using pe ms by simp
  have "grid (maze s) e = Some pathTile" using e(3) unfolding pathAt_iff [OF si] .
  then have be: "inBounds w h e" using grid_outside [OF i(1), of e] by force
  have gr: "grid (setTile (maze s) 0 (fst e) (snd e) endTile) c
              = (if c = e \<and> inBounds w h c then Some endTile else grid (maze s) c)" for c
    using grid_setTile [OF i(1), of "fst e" "snd e" endTile c] by simp
  have un: "grid (setTile (maze s) 0 (fst e) (snd e) endTile) c = Some endTile \<longleftrightarrow> c = e" for c
  proof (cases "c = e")
    case True
    then show ?thesis using be unfolding gr by simp
  next
    case False
    have "grid (maze s) c \<noteq> Some endTile"
    proof (cases "inBounds w h c")
      case True
      then show ?thesis using i(5) [of c] by (auto simp: tiles_distinct)
    next
      case False
      then show ?thesis using grid_outside [OF i(1), of c] by simp
    qed
    then show ?thesis using False unfolding gr by simp
  qed
  have mx: "manhattan c \<le> manhattan e" if p: "pathAt (maze s) c" for c
  proof (cases "latticeCell c")
    case True
    then show ?thesis using e(4) [of c] p by blast
  next
    case False
    have "grid (maze s) c = Some pathTile" using p unfolding pathAt_iff [OF si] .
    then obtain f where "latticeCell f \<and> pathAt (maze s) f" "manhattan c < manhattan f"
      using between_path_less [OF si _ False] by blast
    then show ?thesis using e(4) [of f] by linarith
  qed
  show ?thesis
    unfolding ms using ge un e(2,3,5) mx by blast
qed

theorem end_cell_farthest_witness:
  "carvedMaze 5 3 firstChoice = Inr carved53
   \<and> latticeCell (3, 1) \<and> pathAt carved53 (3, 1)
   \<and> generate 5 3 firstChoice = Inr (setTile carved53 0 3 1 endTile)
   \<and> (\<exists>e. generate 5 3 firstChoice = Inr (setTile carved53 0 (fst e) (snd e) endTile)
          \<and> latticeCell e \<and> pathAt carved53 e
          \<and> (\<forall>c. pathAt carved53 c \<longrightarrow> manhattan c \<le> manhattan e))"
proof -
  have a: "carvedMaze 5 3 firstChoice = Inr carved53" by code_simp
  have b: "latticeCell (3, 1) \<and> pathAt carved53 (3, 1)" by code_simp
  have c: "generate 5 3 firstChoice = Inr (setTile carved53 0 3 1 endTile)" by code_simp
  have d: "\<exists>c. latticeCell c \<and> pathAt carved53 c" using b by blast
  show ?thesis
    using a b c end_cell_farthest [OF a d] by blast
qed

text \<open>
  C4 as stated makes the End cell a Path cell in every generated maze. In the 3 by 3
  maze the carving leaves the Start tile at \<open>(1, 1)\<close> and no Path cell; the End tile is
  put on the Start tile.
\<close>

theorem end_cell_counterexample:
  "carvedMaze 3 3 firstChoice = Inr carved3
   \<and> generate 3 3 firstChoice = Inr maze3
   \<and> grid maze3 (1, 1) = Some endTile
   \<and> grid carved3 (1, 1) = Some startTile
   \<and> \<not> pathAt carved3 (1, 1)"
  by code_simp


section \<open>Mazes without a Path cell on the lattice\<close>

lemma scanRow_no_start:
  assumes "\<And>x. \<not> isStartTile (getTile m 0 x y)"
  shows "scanRow m y p = p"
proof -
  have "List.find (\<lambda>x. isStartTile (getTile m 0 x y)) [0..tm_width m - 1] = None"
    using assms by (simp add: find_None_iff)
  then show ?thesis by (simp add: scanRow_def)
qed

lemma fold_scanRow_no_start:
  assumes "\<And>x y. \<not> isStartTile (getTile m 0 x y)"
  shows "fold (scanRow m) ys p = p"
  by (induction ys) (simp_all add: scanRow_no_start [OF assms])

lemma restart_no_start:
  assumes tm: "tileMap g = Some m" and no: "\<And>x y. \<not> isStartTile (getTile m 0 x y)"
    and pl: "player g = Some i" and i: "i < length (entities g)"
  shows "ent_x (entities (restart g) ! i) = ent_x (entities g ! i)
         \<and> ent_y (entities (restart g) ! i) = ent_y (entities g ! i)"
proof -
  define p1 where "p1 = (entities g ! i)\<lparr>playerData :=
                           map_option (\<lambda>d. d\<lparr>health := 100, score := 0\<rparr>)
                             (playerData (entities g ! i))\<rparr>"
  have f: "fold (scanRow m) [0..tm_height m - 1] p1 = p1"
    by (rule fold_scanRow_no_start [OF no])
  have "entities (restart g) = (entities g)[i := p1]"
    using tm pl i f by (simp add: restart_def Let_def p1_def)
  then have "entities (restart g) ! i = p1" using i by simp
  then show ?thesis by (simp add: p1_def)
qed

lemma small_no_path:
  assumes inv: "structInv w h s" and "w \<le> 4" and "h \<le> 4"
  shows "\<not> (\<exists>c. latticeCell c \<and> pathAt (maze s) c)"
proof
  assume "\<exists>c. latticeCell c \<and> pathAt (maze s) c"
  then obtain c where c: "latticeCell c" "pathAt (maze s) c" by blast
  note f = lattice_path_scanned [OF inv c]
  have "c \<in> interior w h" using f(1) unfolding set_scanOrder by blast
  then have "0 < fst c" "fst c < 3" "0 < snd c" "snd c < 3"
    using assms(2,3) by (auto simp: interior_def)
  moreover have "odd (fst c)" "odd (snd c)" using c(1) by (simp_all add: latticeCell_def)
  ultimately have "fst c = 1 \<and> snd c = 1" by presburger
  then have "c = (1, 1)" by (cases c) simp
  then show False using f(4) by blast
qed

text \<open>
  C10 (as the code has it). Let \<open>(1, 1)\<close> lie inside the map (width at least 2; the
  height is at least 2 whenever \<open>generate\<close> returns). When the carving leaves no Path
  cell on the odd sub-lattice, as it does for every width and height up to 4, the
  carved map has the Start tile at \<open>(1, 1)\<close>, \<open>generate\<close> puts the End tile there, and
  the returned map has an End cell and no Start cell. \<open>restart\<close> on an engine with that
  map leaves the position of the player as it was.
\<close>

theorem degenerate_maze_has_no_start:
  assumes "carvedMaze w h rand = Inr m" and "2 \<le> w"
    and "(w \<le> 4 \<and> h \<le> 4) \<or> \<not> (\<exists>c. latticeCell c \<and> pathAt m c)"
  shows "grid m (1, 1) = Some startTile
         \<and> generate w h rand = Inr (setTile m 0 1 1 endTile)
         \<and> grid (setTile m 0 1 1 endTile) (1, 1) = Some endTile
         \<and> (\<forall>x y. \<not> isStartTile (getTile (setTile m 0 1 1 endTile) 0 x y))
         \<and> (\<forall>g i. tileMap g = Some (setTile m 0 1 1 endTile) \<and> player g = Some i
                    \<and> i < length (entities g)
               \<longrightarrow> ent_x (entities (restart g) ! i) = ent_x (entities g ! i)
                   \<and> ent_y (entities (restart g) ! i) = ent_y (entities g ! i))"
proof -
  obtain s0 where s0: "carveInit w h = Inr s0" and m0: "m = maze (carveLoop w h rand s0)"
    using assms(1) by (rule carvedMaze_Inr)
  define s where "s = carveLoop w h rand s0"
  have inv: "carveInv w h s"
    using carveLoop_carveInv [OF s0, of rand] unfolding s_def by blast
  have si: "structInv w h s" using inv unfolding carveInv_def by blast
  have ms: "m = maze s" unfolding m0 s_def ..
  note i = structInvD [OF si]
  have h: "2 \<le> h" by (rule carveInit_Inr(2) [OF s0])
  have b1: "inBounds w h (1, 1)" using assms(2) h by (simp add: inBounds_def)
  have no: "\<not> (\<exists>c. latticeCell c \<and> pathAt (maze s) c)"
    using assms(3) small_no_path [OF si] unfolding ms by blast
  have fe: "findEnd w h (maze s) = (0, 1, 1)" by (rule findEnd_none [OF si no])
  have pe: "placeEnd w h (maze s) = setTile (maze s) 0 1 1 endTile"
    unfolding placeEnd_def fe by simp
  have a: "grid (maze s) (1, 1) = Some startTile" using i(6) [of "(1, 1)"] b1 by blast
  have b: "generate w h rand = Inr (setTile (maze s) 0 1 1 endTile)"
    unfolding generate_carvedMaze assms(1) ms [symmetric] using pe ms by simp
  have gr: "grid (setTile (maze s) 0 1 1 endTile) c
              = (if c = (1, 1) \<and> inBounds w h c then Some endTile else grid (maze s) c)" for c
    by (rule grid_setTile [OF i(1)])
  have c: "grid (setTile (maze s) 0 1 1 endTile) (1, 1) = Some endTile"
    unfolding gr using b1 by simp
  have d: "\<not> isStartTile (getTile (setTile (maze s) 0 1 1 endTile) 0 x y)" for x y
  proof (cases "(x, y) = (1, 1)")
    case True
    then have "getTile (setTile (maze s) 0 1 1 endTile) 0 x y = Some endTile"
      using c unfolding grid_def by simp
    then show ?thesis by (simp add: isStartTile_def tile_types)
  next
    case False
    have n: "grid (maze s) (x, y) \<noteq> Some startTile" using i(6) [of "(x, y)"] False by blast
    have "grid (setTile (maze s) 0 1 1 endTile) (x, y)
            = (if (x, y) = (1, 1) \<and> inBounds w h (x, y) then Some endTile
               else grid (maze s) (x, y))"
      by (rule gr)
    also have "\<dots> = grid (maze s) (x, y)" using False by (simp only: simp_thms if_False)
    finally have "getTile (setTile (maze s) 0 1 1 endTile) 0 x y = grid (maze s) (x, y)"
      unfolding grid_def [of "setTile (maze s) 0 1 1 endTile"] by simp
    moreover have "\<not> isStartTile (grid (maze s) (x, y))"
    proof (cases "inBounds w h (x, y)")
      case True
      then show ?thesis
        using i(5) [of "(x, y)"] n by (auto simp: isStartTile_def tile_types)
    next
      case False
      then show ?thesis
        using grid_outside [OF i(1), of "(x, y)"] by (simp add: isStartTile_def)
    qed
    ultimately show ?thesis by simp
  qed
  have e: "\<forall>g i. tileMap g = Some (setTile (maze s) 0 1 1 endTile) \<and> player g = Some i
                    \<and> i < length (entities g)
               \<longrightarrow> ent_x (entities (restart g) ! i) = ent_x (entities g ! i)
                   \<and> ent_y (entities (restart g) ! i) = ent_y (entities g ! i)"
    using restart_no_start [OF _ d] by blast
  show ?thesis
    unfolding ms using a b c d e by blast
qed

text \<open>
  The witness is the 3 by 3 maze, and the engine whose player stands at \<open>(40, 40)\<close>:
  after \<open>restart\<close> it still stands there.
\<close>

theorem degenerate_maze_has_no_start_witness:
  "carvedMaze 3 3 firstChoice = Inr carved3 \<and> (2 :: int) \<le> 3 \<and> (3 :: int) \<le> 4
   \<and> setTile carved3 0 1 1 endTile = maze3
   \<and> tileMap engine0 = Some maze3 \<and> player engine0 = Some 0
   \<and> grid carved3 (1, 1) = Some startTile
   \<and> generate 3 3 firstChoice = Inr maze3
   \<and> grid maze3 (1, 1) = Some endTile
   \<and> ent_x (entities (restart engine0) ! 0) = 40
   \<and> ent_y (entities (restart engine0) ! 0) = 40"
proof -
  have a: "carvedMaze 3 3 firstChoice = Inr carved3" by code_simp
  have b: "(2 :: int) \<le> 3" by simp
  have c: "((3 :: int) \<le> 4 \<and> (3 :: int) \<le> 4) \<or> \<not> (\<exists>c. latticeCell c \<and> pathAt carved3 c)"
    by simp
  have d: "setTile carved3 0 1 1 endTile = maze3" by code_simp
  have e: "tileMap engine0 = Some maze3" "player engine0 = Some 0"
    "0 < length (entities engine0)" "ent_x (entities engine0 ! 0) = 40"
    "ent_y (entities engine0 ! 0) = 40"
    by (simp_all add: engine0_def deadPlayer_def)
  note t = degenerate_maze_has_no_start [OF a b c, unfolded d]
  have r: "ent_x (entities (restart engine0) ! 0) = ent_x (entities engine0 ! 0)
           \<and> ent_y (entities (restart engine0) ! 0) = ent_y (entities engine0 ! 0)"
    using t e(1,2,3) by blast
  show ?thesis
    using a d e r t by simp
qed

text \<open>
  C10 as stated gives the returned map an End cell whenever the carving leaves no
  Path cell on the lattice, for example for widths and heights up to 3. For width 1
  and height 3 nothing is carved, \<open>(1, 1)\<close> is outside the map, the End tile is not
  placed, and the returned map is a column of three walls.
\<close>

theorem degenerate_maze_counterexample:
  "carvedMaze 1 3 firstChoice = Inr maze13
   \<and> generate 1 3 firstChoice = Inr maze13
   \<and> grid maze13 (1, 1) = None
   \<and> map (map tile_type) (tiles (layers maze13 ! 0)) = [[WALL], [WALL], [WALL]]"
  by code_simp

end
